theory Spec2Isabelle
  imports Main "HOL-Library.Multiset"
begin

section \<open>Energy levels (EnergyLevelType.ts)\<close>

text \<open>
  An orbital of the shell model. The constructor arguments \<open>n\<close> and \<open>l\<close> are the fields
  \<open>num_n\<close> and \<open>num_l\<close> here (one-letter field names would capture the variables of every
  later statement); \<open>j2\<close> stores twice the angular momentum, a natural number.
\<close>

record EnergyLevelType =
  num_n :: nat
  num_l :: nat
  j2 :: nat
  yPosition :: nat
  label :: string

text \<open>The getter \<^verbatim>\<open>capacity\<close>: \<^verbatim>\<open>return this.j2 + 1\<close>.\<close>

definition capacity :: "EnergyLevelType \<Rightarrow> nat" where
  "capacity level = j2 level + 1"

definition ENERGY_LEVELS :: "EnergyLevelType list" where
  "ENERGY_LEVELS =
    [ \<lparr>num_n = 1, num_l = 0, j2 = 1, yPosition = 0, label = ''1s_{1/2}''\<rparr>,
      \<lparr>num_n = 1, num_l = 1, j2 = 3, yPosition = 1, label = ''1p_{3/2}''\<rparr>,
      \<lparr>num_n = 1, num_l = 1, j2 = 1, yPosition = 2, label = ''1p_{1/2}''\<rparr>,
      \<lparr>num_n = 1, num_l = 2, j2 = 5, yPosition = 3, label = ''1d_{5/2}''\<rparr>,
      \<lparr>num_n = 2, num_l = 0, j2 = 1, yPosition = 4, label = ''2s_{1/2}''\<rparr>,
      \<lparr>num_n = 1, num_l = 2, j2 = 3, yPosition = 5, label = ''1d_{3/2}''\<rparr>,
      \<lparr>num_n = 1, num_l = 3, j2 = 7, yPosition = 6, label = ''1f_{7/2}''\<rparr>,
      \<lparr>num_n = 2, num_l = 1, j2 = 3, yPosition = 7, label = ''2p_{3/2}''\<rparr>,
      \<lparr>num_n = 1, num_l = 3, j2 = 5, yPosition = 8, label = ''1f_{5/2}''\<rparr>,
      \<lparr>num_n = 2, num_l = 1, j2 = 1, yPosition = 9, label = ''2p_{1/2}''\<rparr> ]"

section \<open>Module constants and helpers of ShellModelNucleus.ts\<close>

text \<open>
  The module reads the table \<^verbatim>\<open>ENERGY_LEVELS\<close> once; the functions below take it as the
  parameter \<open>levels\<close>, so that every statement holds for any table and in particular for
  \<^const>\<open>ENERGY_LEVELS\<close>. The global \<^verbatim>\<open>assert\<close> of the toolkit is a function when
  assertions are enabled and undefined otherwise (hence the idiom
  \<^verbatim>\<open>assert && assert( ... )\<close>); it is the parameter \<open>assertions\<close>. A failed assertion and
  a property access on \<^verbatim>\<open>undefined\<close> both throw.
\<close>

datatype error = AssertionError | TypeError

text \<open>\<^verbatim>\<open>ENERGY_LEVELS.reduce( ( s, l ) => s + l.capacity, 0 )\<close>\<close>

definition TOTAL_CAPACITY :: "EnergyLevelType list \<Rightarrow> nat" where
  "TOTAL_CAPACITY levels = foldl (\<lambda>s level. s + capacity level) 0 levels"

text \<open>\<^verbatim>\<open>ENERGY_LEVELS.map( level => Array.from( { length: level.capacity }, ( _, i ) => i ) )\<close>\<close>

definition ALLOWED_PARTICLE_POSITIONS :: "EnergyLevelType list \<Rightarrow> nat list list" where
  "ALLOWED_PARTICLE_POSITIONS levels = map (\<lambda>level. [0..<capacity level]) levels"

text \<open>
  \<^verbatim>\<open>getCapacityBelowRow\<close>: the loop \<^verbatim>\<open>for ( i = 0; i < rowIndex; i++ ) sum += ENERGY_LEVELS[ i ].capacity\<close>.
  Reading \<^verbatim>\<open>.capacity\<close> of a row past the end of the table throws.
\<close>

definition getCapacityBelowRow :: "EnergyLevelType list \<Rightarrow> int \<Rightarrow> error + nat" where
  "getCapacityBelowRow levels rowIndex =
     (if int (length levels) < rowIndex then Inl TypeError
      else Inr (foldl (\<lambda>sum i. sum + capacity (levels ! i)) 0 [0..<nat rowIndex]))"

text \<open>
  \<^verbatim>\<open>getRowIndexForGlobalIndex\<close>: the loop over \<open>i\<close> with the running remainder \<open>r\<close>;
  \<open>None\<close> when the loop ends without returning.
\<close>

function getRowIndexLoop :: "EnergyLevelType list \<Rightarrow> int \<Rightarrow> nat \<Rightarrow> nat option" where
  "getRowIndexLoop levels r i =
     (if i < length levels then
        (let r' = r - int (capacity (levels ! i))
         in if r' < 0 then Some i else getRowIndexLoop levels r' (i + 1))
      else None)"
  by pat_completeness auto
termination
  by (relation "measure (\<lambda>(levels, r, i). length levels - i)") auto

declare getRowIndexLoop.simps [simp del]

definition getRowIndexForGlobalIndex :: "bool \<Rightarrow> EnergyLevelType list \<Rightarrow> int \<Rightarrow> error + int" where
  "getRowIndexForGlobalIndex assertions levels index0Based =
     (case getRowIndexLoop levels index0Based 0 of
        Some i \<Rightarrow> Inr (int i)
      | None \<Rightarrow> if assertions then Inl AssertionError else Inr (int (length levels) - 1))"

text \<open>\<^verbatim>\<open>getReachedRowIndexForCount\<close>: the loop over \<open>i\<close> with the running sum.\<close>

function getReachedRowLoop :: "EnergyLevelType list \<Rightarrow> int \<Rightarrow> nat \<Rightarrow> nat \<Rightarrow> nat option" where
  "getReachedRowLoop levels safeCount running i =
     (if i < length levels then
        (let running' = running + capacity (levels ! i)
         in if safeCount \<le> int running' then Some i
            else getReachedRowLoop levels safeCount running' (i + 1))
      else None)"
  by pat_completeness auto
termination
  by (relation "measure (\<lambda>(levels, safeCount, running, i). length levels - i)") auto

declare getReachedRowLoop.simps [simp del]

definition getReachedRowIndexForCount :: "EnergyLevelType list \<Rightarrow> int \<Rightarrow> int" where
  "getReachedRowIndexForCount levels nucleonCount =
     (let safeCount = max 0 nucleonCount
      in case getReachedRowLoop levels safeCount 0 0 of
           Some i \<Rightarrow> int i
         | None \<Rightarrow> int (length levels) - 1)"

text \<open>
  \<^verbatim>\<open>getLocalXIndex\<close>: the \<^verbatim>\<open>while ( r >= 0 )\<close> loop runs \<open>r\<close> from \<open>rowIndex - 1\<close> down to
  \<open>0\<close>; the argument of \<open>getLocalXLoop\<close> is \<open>r + 1\<close>. A row index outside the table makes
  \<^verbatim>\<open>ALLOWED_PARTICLE_POSITIONS[ r ]\<close> undefined and the access on it throws; an index
  outside the row reads \<^verbatim>\<open>undefined\<close>, which is \<open>None\<close>.
\<close>

fun getLocalXLoop :: "EnergyLevelType list \<Rightarrow> int \<Rightarrow> nat \<Rightarrow> int" where
  "getLocalXLoop levels indexForRow 0 = indexForRow"
| "getLocalXLoop levels indexForRow (Suc r) =
     getLocalXLoop levels (indexForRow - int (length (ALLOWED_PARTICLE_POSITIONS levels ! r))) r"

definition getLocalXIndex :: "EnergyLevelType list \<Rightarrow> int \<Rightarrow> int \<Rightarrow> error + nat option" where
  "getLocalXIndex levels globalIndex rowIndex =
     (if rowIndex < 0 \<or> int (length levels) \<le> rowIndex then Inl TypeError
      else
        (let indexForRow = getLocalXLoop levels globalIndex (nat rowIndex);
             row = ALLOWED_PARTICLE_POSITIONS levels ! nat rowIndex
         in Inr (if 0 \<le> indexForRow \<and> indexForRow < int (length row)
                 then Some (row ! nat indexForRow) else None)))"

section \<open>Shell slots of the nucleus (class ShellModelNucleus)\<close>

text \<open>
  A \<^verbatim>\<open>ParticleShellPosition\<close> is a slot object: the particle it holds, if any, and its
  position in the row. Particles are opaque identities of type \<open>'p\<close>, compared by
  reference. The class keeps one table of slots per nucleon kind, and
  \<^verbatim>\<open>getNucleonShellPositions\<close> picks the table from the kind of the particle; every
  method below works on the table it picked and leaves the other alone, so the model is
  one table of one kind, and the constant \<^verbatim>\<open>type\<close> tag of a slot is left out. The
  methods mutate the slot objects in place; the model returns the new table.
\<close>

record 'p ParticleShellPosition =
  particle :: "'p option"
  xPosition :: nat

type_synonym 'p shells = "'p ParticleShellPosition list list"

text \<open>
  The constructor: one row per row of \<^verbatim>\<open>ALLOWED_PARTICLE_POSITIONS\<close>, one empty slot
  \<^verbatim>\<open>{ xPosition: x }\<close> at index \<open>x\<close> for every allowed \<open>x\<close> of the row.
\<close>

definition initialShellPositions :: "EnergyLevelType list \<Rightarrow> 'p shells" where
  "initialShellPositions levels =
     map (map (\<lambda>x. \<lparr>particle = None, xPosition = x\<rparr>)) (ALLOWED_PARTICLE_POSITIONS levels)"

text \<open>
  \<^verbatim>\<open>Array.prototype.find\<close> returns a reference to the first element that satisfies the
  predicate. The callers write through that reference, so the model keeps the index of
  the element, which is where the write lands.
\<close>

fun findFirst :: "('a \<Rightarrow> bool) \<Rightarrow> 'a list \<Rightarrow> nat option" where
  "findFirst P [] = None"
| "findFirst P (x # xs) = (if P x then Some 0 else map_option Suc (findFirst P xs))"

text \<open>
  \<^verbatim>\<open>getParticleDestination\<close>: the first open slot of every row, then the first row that
  has one. Without an open slot the assertion fails when assertions are enabled, and the
  write \<^verbatim>\<open>openShellPosition!.particle = particle\<close> on \<^verbatim>\<open>undefined\<close> throws when they are
  not. The result is the new table and the model coordinate \<open>(xPosition, rowIndex)\<close> that
  the code hands to \<^verbatim>\<open>modelViewTransform.modelToViewXY\<close>; the transform itself and the
  horizontal offset of the neutron column belong to the view and are not modelled.
\<close>

definition getParticleDestination ::
    "bool \<Rightarrow> 'p \<Rightarrow> 'p shells \<Rightarrow> error + ((nat \<times> nat) \<times> 'p shells)" where
  "getParticleDestination assertions p nucleonShellPositions =
     (let openPositionsByRow =
            map (\<lambda>row. findFirst (\<lambda>pos. particle pos = None) row) nucleonShellPositions
      in case findFirst (\<lambda>pos. pos \<noteq> None) openPositionsByRow of
           None \<Rightarrow> Inl (if assertions then AssertionError else TypeError)
         | Some rowIndex \<Rightarrow>
             (case openPositionsByRow ! rowIndex of
                None \<Rightarrow> Inl TypeError
              | Some x \<Rightarrow>
                  (let openShellPosition = nucleonShellPositions ! rowIndex ! x
                   in Inr ((xPosition openShellPosition, rowIndex),
                        nucleonShellPositions
                          [rowIndex := (nucleonShellPositions ! rowIndex)
                             [x := openShellPosition\<lparr>particle := Some p\<rparr>]]))))"

text \<open>\<^verbatim>\<open>removeParticleFromShell\<close>: every slot that holds the particle is emptied.\<close>

definition removeParticleFromShell :: "'p \<Rightarrow> 'p shells \<Rightarrow> 'p shells" where
  "removeParticleFromShell p nucleonShellPositions =
     map (map (\<lambda>pos. if particle pos = Some p then pos\<lparr>particle := None\<rparr> else pos))
       nucleonShellPositions"

text \<open>
  \<^verbatim>\<open>updateNucleonPositions\<close>, first loop: the particles found in the slots that are not in
  \<^verbatim>\<open>particleArray\<close> are pushed to \<^verbatim>\<open>incomingParticles\<close> in scan order (rows in order,
  slots in order), and every slot is emptied.
\<close>

definition incomingParticlesOf :: "'p list \<Rightarrow> 'p shells \<Rightarrow> 'p list" where
  "incomingParticlesOf particleArray particleShellPositions =
     filter (\<lambda>p. p \<notin> set particleArray) (List.map_filter particle (concat particleShellPositions))"

definition clearSlots :: "'p shells \<Rightarrow> 'p shells" where
  "clearSlots particleShellPositions =
     map (map (\<lambda>pos. pos\<lparr>particle := None\<rparr>)) particleShellPositions"

text \<open>
  The body of \<^verbatim>\<open>particleArray.forEach( ( particle, index ) => ... )\<close>. An exception of
  \<^verbatim>\<open>getRowIndexForGlobalIndex\<close> or \<^verbatim>\<open>getLocalXIndex\<close> leaves the method; when the slot
  \<^verbatim>\<open>particleShellPositions[ rowIndex ][ xIndex ]\<close> does not exist, the write
  \<^verbatim>\<open>shellPos.particle = particle\<close> throws. The destination and the \<^verbatim>\<open>inputEnabled\<close> flag that
  the body sets on the particle are not part of the table.
\<close>

definition placeParticle ::
    "bool \<Rightarrow> EnergyLevelType list \<Rightarrow> 'p \<Rightarrow> nat \<Rightarrow> 'p shells \<Rightarrow> error + 'p shells" where
  "placeParticle assertions levels p index particleShellPositions =
     (case getRowIndexForGlobalIndex assertions levels (int index) of
        Inl e \<Rightarrow> Inl e
      | Inr rowIndex \<Rightarrow>
          (case getLocalXIndex levels (int index) rowIndex of
             Inl e \<Rightarrow> Inl e
           | Inr None \<Rightarrow> Inl TypeError
           | Inr (Some xIndex) \<Rightarrow>
               if 0 \<le> rowIndex \<and> nat rowIndex < length particleShellPositions
                  \<and> xIndex < length (particleShellPositions ! nat rowIndex)
               then Inr (particleShellPositions
                      [nat rowIndex := (particleShellPositions ! nat rowIndex)
                         [xIndex := (particleShellPositions ! nat rowIndex ! xIndex)
                                      \<lparr>particle := Some p\<rparr>]])
               else Inl TypeError))"

fun placeParticles ::
    "bool \<Rightarrow> EnergyLevelType list \<Rightarrow> 'p list \<Rightarrow> nat \<Rightarrow> 'p shells \<Rightarrow> error + 'p shells" where
  "placeParticles assertions levels [] index particleShellPositions = Inr particleShellPositions"
| "placeParticles assertions levels (p # ps) index particleShellPositions =
     (case placeParticle assertions levels p index particleShellPositions of
        Inl e \<Rightarrow> Inl e
      | Inr shells' \<Rightarrow> placeParticles assertions levels ps (index + 1) shells')"

text \<open>
  The last loop, \<^verbatim>\<open>incomingParticles.forEach\<close>: every remembered particle reserves the
  next open slot again.
\<close>

fun restoreReservations :: "bool \<Rightarrow> 'p list \<Rightarrow> 'p shells \<Rightarrow> error + 'p shells" where
  "restoreReservations assertions [] particleShellPositions = Inr particleShellPositions"
| "restoreReservations assertions (p # ps) particleShellPositions =
     (case getParticleDestination assertions p particleShellPositions of
        Inl e \<Rightarrow> Inl e
      | Inr (destination, shells') \<Rightarrow> restoreReservations assertions ps shells')"

text \<open>
  \<^verbatim>\<open>updateNucleonPositions\<close>. The duplicate check runs only under \<^verbatim>\<open>if ( assert )\<close>;
  \<^verbatim>\<open>_.uniq( placed ).length === placed.length\<close> says that \<open>placed\<close> has no repetition. The
  width of the widest row, computed for the disabled binding effect, is not used.
\<close>

definition updateNucleonPositions ::
    "bool \<Rightarrow> EnergyLevelType list \<Rightarrow> 'p list \<Rightarrow> 'p shells \<Rightarrow> error + 'p shells" where
  "updateNucleonPositions assertions levels particleArray particleShellPositions =
     (let incomingParticles = incomingParticlesOf particleArray particleShellPositions
      in case placeParticles assertions levels particleArray 0 (clearSlots particleShellPositions) of
           Inl e \<Rightarrow> Inl e
         | Inr placedShells \<Rightarrow>
             (let placed = filter (\<lambda>p. p \<notin> set incomingParticles)
                             (List.map_filter particle (concat placedShells))
              in if assertions \<and> \<not> distinct placed then Inl AssertionError
                 else restoreReservations assertions incomingParticles placedShells))"

section \<open>Views of a table used in the statements\<close>

text \<open>The occupant of every slot, rows in order and slots in order within a row.\<close>

definition slotOccupants :: "'p shells \<Rightarrow> 'p option list" where
  "slotOccupants shells = map particle (concat shells)"

text \<open>
  The shape that the constructor gives a table and that no method changes: one row per
  level, one slot per allowed position, each slot at the index of its \<open>xPosition\<close>.
\<close>

definition wellFormed :: "EnergyLevelType list \<Rightarrow> 'p shells \<Rightarrow> bool" where
  "wellFormed levels shells \<longleftrightarrow> map (map xPosition) shells = ALLOWED_PARTICLE_POSITIONS levels"

text \<open>The positions \<open>(row, slot)\<close> that hold a particle.\<close>

definition filledPositions :: "'p shells \<Rightarrow> (nat \<times> nat) list" where
  "filledPositions shells =
     concat (map (\<lambda>(r, row). map (\<lambda>(x, pos). (r, x))
                                (filter (\<lambda>(x, pos). particle pos \<noteq> None) (enumerate 0 row)))
               (enumerate 0 shells))"

section \<open>Cumulative capacities\<close>

text \<open>The capacity of the rows strictly before row \<open>r\<close>.\<close>

definition capacityBelow :: "EnergyLevelType list \<Rightarrow> nat \<Rightarrow> nat" where
  "capacityBelow levels r = sum_list (map capacity (take r levels))"

lemma capacityBelow_0: "capacityBelow levels 0 = 0"
  by (simp add: capacityBelow_def)

lemma capacityBelow_Suc:
  "i < length levels \<Longrightarrow> capacityBelow levels (Suc i) = capacityBelow levels i + capacity (levels ! i)"
  by (simp add: capacityBelow_def take_Suc_conv_app_nth)

lemma capacityBelow_mono: "r \<le> r' \<Longrightarrow> capacityBelow levels r \<le> capacityBelow levels r'"
proof (induction r' arbitrary: r)
  case 0
  then show ?case by simp
next
  case (Suc r')
  show ?case
  proof (cases "r = Suc r'")
    case True
    then show ?thesis by simp
  next
    case False
    with Suc.prems have le: "r \<le> r'" by simp
    have "capacityBelow levels r' \<le> capacityBelow levels (Suc r')"
    proof (cases "r' < length levels")
      case True
      then show ?thesis by (simp add: capacityBelow_Suc)
    next
      case False
      then show ?thesis by (simp add: capacityBelow_def)
    qed
    with Suc.IH [OF le] show ?thesis by simp
  qed
qed

lemma foldl_add_sum_list: "foldl (\<lambda>s x. s + f x) a xs = a + sum_list (map f xs)"
  by (induction xs arbitrary: a) (simp_all add: add.assoc)

lemma TOTAL_CAPACITY_eq: "TOTAL_CAPACITY levels = capacityBelow levels (length levels)"
  by (simp add: TOTAL_CAPACITY_def capacityBelow_def foldl_add_sum_list)

lemma capacityBelow_le_total: "capacityBelow levels r \<le> TOTAL_CAPACITY levels"
proof (cases "r \<le> length levels")
  case True
  then show ?thesis unfolding TOTAL_CAPACITY_eq by (rule capacityBelow_mono)
next
  case False
  then show ?thesis by (simp add: TOTAL_CAPACITY_eq capacityBelow_def)
qed

lemma capacity_pos: "0 < capacity level"
  by (simp add: capacity_def)

lemma capacityBelow_strict:
  "r < r' \<Longrightarrow> r' \<le> length levels \<Longrightarrow> capacityBelow levels r < capacityBelow levels r'"
proof -
  assume a: "r < r'" "r' \<le> length levels"
  then have "capacityBelow levels (Suc r) = capacityBelow levels r + capacity (levels ! r)"
    by (simp add: capacityBelow_Suc)
  then have "capacityBelow levels r < capacityBelow levels (Suc r)"
    using capacity_pos [of "levels ! r"] by simp
  moreover have "capacityBelow levels (Suc r) \<le> capacityBelow levels r'"
    using a by (intro capacityBelow_mono) simp
  ultimately show ?thesis by simp
qed

lemma getCapacityBelowRow_eq:
  assumes "r \<le> length levels"
  shows "getCapacityBelowRow levels (int r) = Inr (capacityBelow levels r)"
proof -
  have "map (\<lambda>i. capacity (levels ! i)) [0..<r] = map capacity (take r levels)"
    using assms by (intro nth_equalityI) simp_all
  then show ?thesis
    using assms by (simp add: getCapacityBelowRow_def capacityBelow_def foldl_add_sum_list)
qed

section \<open>The row of a global index\<close>

lemma getRowIndexLoop_Some:
  "getRowIndexLoop levels r i = Some k \<Longrightarrow>
     i \<le> k \<and> k < length levels
     \<and> r + int (capacityBelow levels i) < int (capacityBelow levels (Suc k))
     \<and> (\<forall>j. i \<le> j \<and> j < k \<longrightarrow> int (capacityBelow levels (Suc j)) \<le> r + int (capacityBelow levels i))"
proof (induction levels r i rule: getRowIndexLoop.induct)
  case (1 levels r i)
  show ?case
  proof (cases "i < length levels")
    case False
    with "1.prems" show ?thesis by (simp add: getRowIndexLoop.simps [of levels r i])
  next
    case True
    note lt = this
    show ?thesis
    proof (cases "r - int (capacity (levels ! i)) < 0")
      case True
      with lt "1.prems" have "k = i" by (simp add: getRowIndexLoop.simps [of levels r i])
      with lt True show ?thesis by (simp add: capacityBelow_Suc)
    next
      case False
      with lt "1.prems"
      have rec: "getRowIndexLoop levels (r - int (capacity (levels ! i))) (i + 1) = Some k"
        by (simp add: getRowIndexLoop.simps [of levels r i])
      have eq: "r - int (capacity (levels ! i)) + int (capacityBelow levels (i + 1))
                  = r + int (capacityBelow levels i)"
        using lt by (simp add: capacityBelow_Suc)
      from "1.IH" [OF lt refl False rec]
      have ih: "i + 1 \<le> k" "k < length levels"
        "r + int (capacityBelow levels i) < int (capacityBelow levels (Suc k))"
        "\<forall>j. i + 1 \<le> j \<and> j < k \<longrightarrow> int (capacityBelow levels (Suc j)) \<le> r + int (capacityBelow levels i)"
        unfolding eq by simp_all
      have "int (capacityBelow levels (Suc j)) \<le> r + int (capacityBelow levels i)"
        if "i \<le> j" "j < k" for j
      proof (cases "j = i")
        case True
        with False lt show ?thesis by (simp add: capacityBelow_Suc)
      next
        case False
        with that ih(4) show ?thesis by simp
      qed
      with ih show ?thesis by simp
    qed
  qed
qed

lemma getRowIndexLoop_None:
  "getRowIndexLoop levels r i = None \<Longrightarrow> i \<le> length levels \<Longrightarrow> 0 \<le> r \<Longrightarrow>
     int (capacityBelow levels (length levels)) \<le> r + int (capacityBelow levels i)"
proof (induction levels r i rule: getRowIndexLoop.induct)
  case (1 levels r i)
  show ?case
  proof (cases "i < length levels")
    case False
    with "1.prems" have "i = length levels" by simp
    with "1.prems" show ?thesis by (simp add: getRowIndexLoop.simps [of levels r i])
  next
    case True
    note lt = this
    with "1.prems" have nonneg: "\<not> r - int (capacity (levels ! i)) < 0"
      and rec: "getRowIndexLoop levels (r - int (capacity (levels ! i))) (i + 1) = None"
      by (simp_all add: getRowIndexLoop.simps [of levels r i] Let_def split: if_splits)
    from "1.IH" [OF lt refl nonneg rec] lt nonneg show ?thesis
      by (simp add: capacityBelow_Suc)
  qed
qed

lemma getRowIndexLoop_total:
  "r + int (capacityBelow levels i) < int (capacityBelow levels (length levels)) \<Longrightarrow>
   i \<le> length levels \<Longrightarrow> 0 \<le> r \<Longrightarrow> \<exists>k. getRowIndexLoop levels r i = Some k"
  using getRowIndexLoop_None [of levels r i] by (cases "getRowIndexLoop levels r i") auto

lemma getRowIndexLoop_past_end:
  "int (capacityBelow levels (length levels)) \<le> r + int (capacityBelow levels i) \<Longrightarrow>
   getRowIndexLoop levels r i = None"
proof (cases "getRowIndexLoop levels r i")
  case None
  then show ?thesis by simp
next
  case (Some k)
  assume a: "int (capacityBelow levels (length levels)) \<le> r + int (capacityBelow levels i)"
  from getRowIndexLoop_Some [OF Some]
  have "k < length levels" "r + int (capacityBelow levels i) < int (capacityBelow levels (Suc k))"
    by simp_all
  moreover have "capacityBelow levels (Suc k) \<le> capacityBelow levels (length levels)"
    using \<open>k < length levels\<close> by (intro capacityBelow_mono) simp
  ultimately show ?thesis using a by simp
qed

text \<open>The row a global index inside the table belongs to, as the placement uses it.\<close>

lemma getRowIndexForGlobalIndex_in_range:
  assumes "0 \<le> i" "i < int (TOTAL_CAPACITY levels)"
  shows "\<exists>r. getRowIndexForGlobalIndex assertions levels i = Inr (int r) \<and> r < length levels
            \<and> int (capacityBelow levels r) \<le> i \<and> i < int (capacityBelow levels (Suc r))"
proof -
  from assms getRowIndexLoop_total [of i levels 0]
  obtain k where k: "getRowIndexLoop levels i 0 = Some k"
    by (auto simp: TOTAL_CAPACITY_eq capacityBelow_0)
  from getRowIndexLoop_Some [OF k]
  have props: "k < length levels" "i < int (capacityBelow levels (Suc k))"
    "\<forall>j. j < k \<longrightarrow> int (capacityBelow levels (Suc j)) \<le> i"
    by (simp_all add: capacityBelow_0)
  have "int (capacityBelow levels k) \<le> i"
  proof (cases k)
    case 0
    with assms show ?thesis by (simp add: capacityBelow_0)
  next
    case (Suc j)
    with props(3) show ?thesis by simp
  qed
  with k props show ?thesis by (auto simp: getRowIndexForGlobalIndex_def)
qed

lemma capacity_ENERGY_LEVELS: "map capacity ENERGY_LEVELS = [2, 4, 2, 6, 2, 4, 8, 4, 6, 2]"
  by (simp add: ENERGY_LEVELS_def capacity_def)

lemma TOTAL_CAPACITY_ENERGY_LEVELS: "TOTAL_CAPACITY ENERGY_LEVELS = 40"
  by (simp add: TOTAL_CAPACITY_def ENERGY_LEVELS_def capacity_def)

text \<open>
  Claim C1. For every global index \<open>i\<close> with \<open>0 \<le> i < TOTAL_CAPACITY\<close>,
  \<open>getRowIndexForGlobalIndex\<close> returns the smallest row \<open>r\<close> whose cumulative capacity
  (rows \<open>0\<close> to \<open>r\<close> inclusive) exceeds \<open>i\<close>, with assertions enabled or not; and for the
  table of the program, whose capacities are 2, 4, 2, 6, 2, 4, 8, 4, 6, 2, it returns row 0
  for the indices 0 and 1, row 1 for 2 and 5, and row 2 for 6.
\<close>

theorem getRowIndexForGlobalIndex_smallest_row:
  "(\<forall>i. 0 \<le> i \<and> i < int (TOTAL_CAPACITY levels) \<longrightarrow>
      (\<exists>r. getRowIndexForGlobalIndex assertions levels i = Inr (int r) \<and> r < length levels
         \<and> i < int (sum_list (map capacity (take (Suc r) levels)))
         \<and> (\<forall>r'. r' < r \<longrightarrow> int (sum_list (map capacity (take (Suc r') levels))) \<le> i)))
   \<and> map capacity ENERGY_LEVELS = [2, 4, 2, 6, 2, 4, 8, 4, 6, 2]
   \<and> getRowIndexForGlobalIndex assertions ENERGY_LEVELS 0 = Inr 0
   \<and> getRowIndexForGlobalIndex assertions ENERGY_LEVELS 1 = Inr 0
   \<and> getRowIndexForGlobalIndex assertions ENERGY_LEVELS 2 = Inr 1
   \<and> getRowIndexForGlobalIndex assertions ENERGY_LEVELS 5 = Inr 1
   \<and> getRowIndexForGlobalIndex assertions ENERGY_LEVELS 6 = Inr 2"
proof -
  have general: "\<exists>r. getRowIndexForGlobalIndex assertions levels i = Inr (int r) \<and> r < length levels
         \<and> i < int (sum_list (map capacity (take (Suc r) levels)))
         \<and> (\<forall>r'. r' < r \<longrightarrow> int (sum_list (map capacity (take (Suc r') levels))) \<le> i)"
    if "0 \<le> i \<and> i < int (TOTAL_CAPACITY levels)" for i
  proof -
    from that getRowIndexLoop_total [of i levels 0]
    obtain k where k: "getRowIndexLoop levels i 0 = Some k"
      by (auto simp: TOTAL_CAPACITY_eq capacityBelow_0)
    from getRowIndexLoop_Some [OF k]
    have "k < length levels" "i < int (capacityBelow levels (Suc k))"
      "\<forall>j. j < k \<longrightarrow> int (capacityBelow levels (Suc j)) \<le> i"
      by (simp_all add: capacityBelow_0)
    with k show ?thesis
      unfolding capacityBelow_def by (auto simp: getRowIndexForGlobalIndex_def)
  qed
  have concrete: "getRowIndexForGlobalIndex assertions ENERGY_LEVELS 0 = Inr 0"
    "getRowIndexForGlobalIndex assertions ENERGY_LEVELS 1 = Inr 0"
    "getRowIndexForGlobalIndex assertions ENERGY_LEVELS 2 = Inr 1"
    "getRowIndexForGlobalIndex assertions ENERGY_LEVELS 5 = Inr 1"
    "getRowIndexForGlobalIndex assertions ENERGY_LEVELS 6 = Inr 2"
    by (simp_all add: getRowIndexForGlobalIndex_def getRowIndexLoop.simps ENERGY_LEVELS_def
        capacity_def)
  from general concrete capacity_ENERGY_LEVELS show ?thesis by blast
qed

theorem getRowIndexForGlobalIndex_smallest_row_witness:
  "(0::int) \<le> 39 \<and> (39::int) < int (TOTAL_CAPACITY ENERGY_LEVELS)
   \<and> getRowIndexForGlobalIndex True ENERGY_LEVELS 39 = Inr 9"
proof -
  have h: "(0::int) \<le> 39 \<and> (39::int) < int (TOTAL_CAPACITY ENERGY_LEVELS)"
    by (simp add: TOTAL_CAPACITY_ENERGY_LEVELS)
  from getRowIndexForGlobalIndex_smallest_row [of ENERGY_LEVELS True, THEN conjunct1, rule_format, OF h]
  obtain r where r: "getRowIndexForGlobalIndex True ENERGY_LEVELS 39 = Inr (int r)"
    "r < length ENERGY_LEVELS" by blast
  have "getRowIndexForGlobalIndex True ENERGY_LEVELS 39 = Inr 9"
    by (simp add: getRowIndexForGlobalIndex_def getRowIndexLoop.simps ENERGY_LEVELS_def
        capacity_def)
  with h r show ?thesis by simp
qed

text \<open>
  Claim C2 (amended). For every index at or past \<open>TOTAL_CAPACITY\<close> the loop of
  \<open>getRowIndexForGlobalIndex\<close> ends without returning; the call then fails on the
  assertion when assertions are enabled, and returns the last row index,
  \<open>length levels - 1\<close>, when they are not.
\<close>

theorem getRowIndexForGlobalIndex_past_end:
  "int (TOTAL_CAPACITY levels) \<le> i \<Longrightarrow>
     getRowIndexForGlobalIndex assertions levels i =
       (if assertions then Inl AssertionError else Inr (int (length levels) - 1))"
  using getRowIndexLoop_past_end [of levels i 0]
  by (simp add: getRowIndexForGlobalIndex_def TOTAL_CAPACITY_eq capacityBelow_0)

theorem getRowIndexForGlobalIndex_past_end_witness:
  "int (TOTAL_CAPACITY ENERGY_LEVELS) \<le> 40
   \<and> getRowIndexForGlobalIndex True ENERGY_LEVELS 40 = Inl AssertionError"
  using getRowIndexForGlobalIndex_past_end [of ENERGY_LEVELS 40 True]
  by (simp add: TOTAL_CAPACITY_ENERGY_LEVELS)

text \<open>
  With assertions disabled the index one past the end of the program's table is answered
  with row 9, not with an error.
\<close>

theorem getRowIndexForGlobalIndex_one_past_end_returns:
  "getRowIndexForGlobalIndex False ENERGY_LEVELS (int (TOTAL_CAPACITY ENERGY_LEVELS)) = Inr 9"
  by code_simp

section \<open>The reached row of a count\<close>

lemma getReachedRowLoop_Some:
  "getReachedRowLoop levels c running i = Some k \<Longrightarrow> running = capacityBelow levels i \<Longrightarrow>
     i \<le> k \<and> k < length levels \<and> c \<le> int (capacityBelow levels (Suc k))
     \<and> (\<forall>j. i \<le> j \<and> j < k \<longrightarrow> int (capacityBelow levels (Suc j)) < c)"
proof (induction levels c running i rule: getReachedRowLoop.induct)
  case (1 levels c running i)
  show ?case
  proof (cases "i < length levels")
    case False
    with "1.prems"(1) show ?thesis by (simp add: getReachedRowLoop.simps [of levels c running i])
  next
    case True
    note lt = this
    have next_sum: "running + capacity (levels ! i) = capacityBelow levels (i + 1)"
      using lt "1.prems"(2) by (simp add: capacityBelow_Suc)
    show ?thesis
    proof (cases "c \<le> int (running + capacity (levels ! i))")
      case True
      with lt "1.prems"(1) have "k = i"
        by (simp add: getReachedRowLoop.simps [of levels c running i])
      with lt True next_sum show ?thesis by simp
    next
      case False
      with lt "1.prems"(1)
      have rec: "getReachedRowLoop levels c (running + capacity (levels ! i)) (i + 1) = Some k"
        by (simp add: getReachedRowLoop.simps [of levels c running i])
      from "1.IH" [OF lt refl False rec next_sum]
      have ih: "i + 1 \<le> k" "k < length levels" "c \<le> int (capacityBelow levels (Suc k))"
        "\<forall>j. i + 1 \<le> j \<and> j < k \<longrightarrow> int (capacityBelow levels (Suc j)) < c"
        by simp_all
      have "int (capacityBelow levels (Suc j)) < c" if "i \<le> j" "j < k" for j
      proof (cases "j = i")
        case True
        with False next_sum show ?thesis by simp
      next
        case False
        with that ih(4) show ?thesis by simp
      qed
      with ih show ?thesis by simp
    qed
  qed
qed

lemma getReachedRowLoop_None:
  "getReachedRowLoop levels c running i = None \<Longrightarrow> running = capacityBelow levels i \<Longrightarrow>
     (\<forall>j. i \<le> j \<and> j < length levels \<longrightarrow> int (capacityBelow levels (Suc j)) < c)"
proof (induction levels c running i rule: getReachedRowLoop.induct)
  case (1 levels c running i)
  show ?case
  proof (cases "i < length levels")
    case False
    then show ?thesis by simp
  next
    case True
    note lt = this
    have next_sum: "running + capacity (levels ! i) = capacityBelow levels (i + 1)"
      using lt "1.prems"(2) by (simp add: capacityBelow_Suc)
    from lt "1.prems"(1) have above: "\<not> c \<le> int (running + capacity (levels ! i))"
      and rec: "getReachedRowLoop levels c (running + capacity (levels ! i)) (i + 1) = None"
      by (simp_all add: getReachedRowLoop.simps [of levels c running i] Let_def split: if_splits)
    from "1.IH" [OF lt refl above rec next_sum]
    have ih: "\<forall>j. i + 1 \<le> j \<and> j < length levels \<longrightarrow> int (capacityBelow levels (Suc j)) < c" .
    have "int (capacityBelow levels (Suc j)) < c" if "i \<le> j" "j < length levels" for j
    proof (cases "j = i")
      case True
      with above next_sum show ?thesis by simp
    next
      case False
      with that ih show ?thesis by simp
    qed
    then show ?thesis by simp
  qed
qed

lemma getReachedRowLoop_first:
  assumes k: "k < length levels" and le: "c \<le> int (capacityBelow levels (Suc k))"
    and before: "\<forall>j. j < k \<longrightarrow> int (capacityBelow levels (Suc j)) < c"
  shows "getReachedRowLoop levels c 0 0 = Some k"
proof (cases "getReachedRowLoop levels c 0 0")
  case None
  from getReachedRowLoop_None [OF None] k le show ?thesis
    by (auto simp: capacityBelow_0)
next
  case (Some k')
  from getReachedRowLoop_Some [OF Some]
  have k': "k' < length levels" "c \<le> int (capacityBelow levels (Suc k'))"
    "\<forall>j. j < k' \<longrightarrow> int (capacityBelow levels (Suc j)) < c"
    by (simp_all add: capacityBelow_0)
  have "\<not> k' < k" using before k'(2) by auto
  moreover have "\<not> k < k'" using k'(3) le by auto
  ultimately show ?thesis using Some by simp
qed

lemma getReachedRowLoop_beyond:
  assumes "int (TOTAL_CAPACITY levels) < c"
  shows "getReachedRowLoop levels c 0 0 = None"
proof (cases "getReachedRowLoop levels c 0 0")
  case None
  then show ?thesis .
next
  case (Some k)
  from getReachedRowLoop_Some [OF Some]
  have "c \<le> int (capacityBelow levels (Suc k))" by (simp add: capacityBelow_0)
  with capacityBelow_le_total [of levels "Suc k"] assms show ?thesis by simp
qed

text \<open>
  Claim C7. On a non-empty table, the reached row of the count 0 is row 0; the reached row
  of a count equal to the cumulative capacity of the rows 0 to \<open>r\<close> is \<open>r\<close>; and the reached
  row of every count above \<open>TOTAL_CAPACITY\<close> is the last row.
\<close>

theorem getReachedRowIndexForCount_frontier:
  assumes "levels \<noteq> []"
  shows "getReachedRowIndexForCount levels 0 = 0
    \<and> (\<forall>r. r < length levels \<longrightarrow>
          getReachedRowIndexForCount levels (int (sum_list (map capacity (take (Suc r) levels)))) = int r)
    \<and> (\<forall>c. int (TOTAL_CAPACITY levels) < c \<longrightarrow>
          getReachedRowIndexForCount levels c = int (length levels) - 1)"
proof -
  from assms have len: "0 < length levels" by simp
  have "getReachedRowLoop levels 0 0 0 = Some 0"
    using len by (intro getReachedRowLoop_first) simp_all
  then have zero: "getReachedRowIndexForCount levels 0 = 0"
    by (simp add: getReachedRowIndexForCount_def)
  have exact: "getReachedRowIndexForCount levels (int (sum_list (map capacity (take (Suc r) levels)))) = int r"
    if r: "r < length levels" for r
  proof -
    have "int (capacityBelow levels (Suc j)) < int (capacityBelow levels (Suc r))" if "j < r" for j
      using that r capacityBelow_strict [of "Suc j" "Suc r" levels] by simp
    then have "getReachedRowLoop levels (int (capacityBelow levels (Suc r))) 0 0 = Some r"
      using r by (intro getReachedRowLoop_first) simp_all
    then show ?thesis
      by (simp add: getReachedRowIndexForCount_def capacityBelow_def)
  qed
  have beyond: "getReachedRowIndexForCount levels c = int (length levels) - 1"
    if c: "int (TOTAL_CAPACITY levels) < c" for c
  proof -
    from c have "max 0 c = c" by simp
    with getReachedRowLoop_beyond [OF c] show ?thesis
      by (simp add: getReachedRowIndexForCount_def)
  qed
  from zero exact beyond show ?thesis by blast
qed

theorem getReachedRowIndexForCount_frontier_witness:
  "ENERGY_LEVELS \<noteq> [] \<and> getReachedRowIndexForCount ENERGY_LEVELS 0 = 0
   \<and> (3::nat) < length ENERGY_LEVELS
   \<and> sum_list (map capacity (take (Suc 3) ENERGY_LEVELS)) = 14
   \<and> getReachedRowIndexForCount ENERGY_LEVELS 14 = 3
   \<and> int (TOTAL_CAPACITY ENERGY_LEVELS) < 41
   \<and> getReachedRowIndexForCount ENERGY_LEVELS 41 = 9"
proof -
  have ne: "ENERGY_LEVELS \<noteq> []" by (simp add: ENERGY_LEVELS_def)
  have r: "(3::nat) < length ENERGY_LEVELS" by (simp add: ENERGY_LEVELS_def)
  have s: "sum_list (map capacity (take (Suc 3) ENERGY_LEVELS)) = 14"
    by (simp add: capacity_ENERGY_LEVELS take_map [symmetric])
  have c: "int (TOTAL_CAPACITY ENERGY_LEVELS) < 41" by (simp add: TOTAL_CAPACITY_ENERGY_LEVELS)
  have len: "int (length ENERGY_LEVELS) - 1 = 9" by (simp add: ENERGY_LEVELS_def)
  note frontier = getReachedRowIndexForCount_frontier [OF ne]
  from frontier have "getReachedRowIndexForCount ENERGY_LEVELS 0 = 0" by blast
  moreover from frontier r
  have "getReachedRowIndexForCount ENERGY_LEVELS (int (sum_list (map capacity (take (Suc 3) ENERGY_LEVELS)))) = int 3"
    by blast
  moreover from frontier c have "getReachedRowIndexForCount ENERGY_LEVELS 41 = int (length ENERGY_LEVELS) - 1"
    by blast
  ultimately show ?thesis using ne r s c len by simp
qed

section \<open>The slot of a global index within its row\<close>

lemma length_ALLOWED_row:
  "r < length levels \<Longrightarrow> length (ALLOWED_PARTICLE_POSITIONS levels ! r) = capacity (levels ! r)"
  by (simp add: ALLOWED_PARTICLE_POSITIONS_def)

lemma nth_ALLOWED_row:
  "r < length levels \<Longrightarrow> x < capacity (levels ! r) \<Longrightarrow> ALLOWED_PARTICLE_POSITIONS levels ! r ! x = x"
  by (simp add: ALLOWED_PARTICLE_POSITIONS_def)

lemma getLocalXLoop_eq:
  "r \<le> length levels \<Longrightarrow> getLocalXLoop levels g r = g - int (capacityBelow levels r)"
  by (induction r arbitrary: g) (simp_all add: capacityBelow_0 capacityBelow_Suc length_ALLOWED_row)

lemma getLocalXIndex_eq:
  assumes "r < length levels"
  shows "getLocalXIndex levels g (int r) =
     Inr (if int (capacityBelow levels r) \<le> g \<and> g < int (capacityBelow levels (Suc r))
          then Some (nat (g - int (capacityBelow levels r))) else None)"
proof -
  have loop: "getLocalXLoop levels g r = g - int (capacityBelow levels r)"
    using assms by (simp add: getLocalXLoop_eq)
  show ?thesis
  proof (cases "int (capacityBelow levels r) \<le> g \<and> g < int (capacityBelow levels (Suc r))")
    case True
    then have "nat (g - int (capacityBelow levels r)) < capacity (levels ! r)"
      unfolding capacityBelow_Suc [OF assms] by linarith
    with True assms loop show ?thesis
      by (simp add: getLocalXIndex_def Let_def length_ALLOWED_row nth_ALLOWED_row capacityBelow_Suc)
  next
    case False
    with assms loop show ?thesis
      by (auto simp: getLocalXIndex_def Let_def length_ALLOWED_row capacityBelow_Suc)
  qed
qed

text \<open>
  Claim C8. Whenever \<open>getLocalXIndex\<close> returns a slot index, that index is the global index
  minus the capacity of the rows strictly before the row, as \<open>getCapacityBelowRow\<close> computes
  it; and for every global index \<open>i\<close> with \<open>0 \<le> i < TOTAL_CAPACITY\<close>, the row \<open>r\<close> that
  \<open>getRowIndexForGlobalIndex\<close> returns makes \<open>getLocalXIndex i r\<close> return a slot index
  between \<open>0\<close> and \<open>capacity r - 1\<close>.
\<close>

theorem getLocalXIndex_in_row:
  "(\<forall>g rowIndex x. getLocalXIndex levels g rowIndex = Inr (Some x) \<longrightarrow>
      (\<exists>below. getCapacityBelowRow levels rowIndex = Inr below \<and> int x = g - int below))
   \<and> (\<forall>i. 0 \<le> i \<and> i < int (TOTAL_CAPACITY levels) \<longrightarrow>
        (\<exists>r x. getRowIndexForGlobalIndex assertions levels i = Inr (int r) \<and> r < length levels
           \<and> getLocalXIndex levels i (int r) = Inr (Some x)
           \<and> 0 \<le> x \<and> x \<le> capacity (levels ! r) - 1))"
proof -
  have difference: "\<exists>below. getCapacityBelowRow levels rowIndex = Inr below \<and> int x = g - int below"
    if ret: "getLocalXIndex levels g rowIndex = Inr (Some x)" for g rowIndex x
  proof -
    from ret have range: "0 \<le> rowIndex" "rowIndex < int (length levels)"
      by (auto simp: getLocalXIndex_def split: if_splits)
    define r where "r = nat rowIndex"
    from range have r: "rowIndex = int r" "r < length levels"
      by (simp_all add: r_def)
    have "getLocalXIndex levels g (int r) = Inr (Some x)" using ret unfolding r(1) .
    then have "(if int (capacityBelow levels r) \<le> g \<and> g < int (capacityBelow levels (Suc r))
          then Some (nat (g - int (capacityBelow levels r))) else None) = Some x"
      unfolding getLocalXIndex_eq [OF r(2)] by simp
    then have "int (capacityBelow levels r) \<le> g" "x = nat (g - int (capacityBelow levels r))"
      by (simp_all split: if_splits)
    then have "int x = g - int (capacityBelow levels r)" by simp
    moreover have "getCapacityBelowRow levels (int r) = Inr (capacityBelow levels r)"
      using r by (intro getCapacityBelowRow_eq) simp
    ultimately show ?thesis using r by simp
  qed
  have in_row: "\<exists>r x. getRowIndexForGlobalIndex assertions levels i = Inr (int r) \<and> r < length levels
           \<and> getLocalXIndex levels i (int r) = Inr (Some x) \<and> 0 \<le> x \<and> x \<le> capacity (levels ! r) - 1"
    if i: "0 \<le> i \<and> i < int (TOTAL_CAPACITY levels)" for i
  proof -
    from i getRowIndexForGlobalIndex_in_range [of i levels assertions]
    obtain r where r: "getRowIndexForGlobalIndex assertions levels i = Inr (int r)" "r < length levels"
      "int (capacityBelow levels r) \<le> i" "i < int (capacityBelow levels (Suc r))"
      by blast
    then have "getLocalXIndex levels i (int r) = Inr (Some (nat (i - int (capacityBelow levels r))))"
      by (simp add: getLocalXIndex_eq)
    moreover have "nat (i - int (capacityBelow levels r)) \<le> capacity (levels ! r) - 1"
      using r by (simp add: capacityBelow_Suc)
    ultimately show ?thesis using r by blast
  qed
  from difference in_row show ?thesis by blast
qed

theorem getLocalXIndex_in_row_witness:
  "getLocalXIndex ENERGY_LEVELS 13 3 = Inr (Some 5)
   \<and> getCapacityBelowRow ENERGY_LEVELS 3 = Inr 8
   \<and> (0::int) \<le> 13 \<and> (13::int) < int (TOTAL_CAPACITY ENERGY_LEVELS)
   \<and> getRowIndexForGlobalIndex True ENERGY_LEVELS 13 = Inr 3
   \<and> capacity (ENERGY_LEVELS ! 3) - 1 = 5"
proof -
  have x: "getLocalXIndex ENERGY_LEVELS 13 3 = Inr (Some 5)"
    by code_simp
  have i: "(0::int) \<le> 13 \<and> (13::int) < int (TOTAL_CAPACITY ENERGY_LEVELS)"
    by (simp add: TOTAL_CAPACITY_ENERGY_LEVELS)
  have row: "getRowIndexForGlobalIndex True ENERGY_LEVELS 13 = Inr 3"
    by code_simp
  have cap: "capacity (ENERGY_LEVELS ! 3) - 1 = 5"
    by (simp add: ENERGY_LEVELS_def capacity_def)
  from getLocalXIndex_in_row [of ENERGY_LEVELS True, THEN conjunct1, rule_format, OF x]
  have "\<exists>below. getCapacityBelowRow ENERGY_LEVELS 3 = Inr below \<and> int 5 = 13 - int below" .
  then have "getCapacityBelowRow ENERGY_LEVELS 3 = Inr 8" by auto
  moreover from getLocalXIndex_in_row [of ENERGY_LEVELS True, THEN conjunct2, rule_format, OF i] row x
  have "\<exists>x. getLocalXIndex ENERGY_LEVELS 13 3 = Inr (Some x) \<and> x \<le> capacity (ENERGY_LEVELS ! 3) - 1"
    by auto
  ultimately show ?thesis using x i row cap by simp
qed

section \<open>Finding the first element\<close>

lemma findFirst_None_iff: "findFirst P xs = None \<longleftrightarrow> (\<forall>x\<in>set xs. \<not> P x)"
  by (induction xs) auto

lemma findFirst_Some:
  "findFirst P xs = Some k \<Longrightarrow> k < length xs \<and> P (xs ! k) \<and> (\<forall>j<k. \<not> P (xs ! j))"
proof (induction xs arbitrary: k)
  case Nil
  then show ?case by simp
next
  case (Cons x xs)
  show ?case
  proof (cases "P x")
    case True
    with Cons.prems show ?thesis by simp
  next
    case False
    with Cons.prems obtain k' where k': "findFirst P xs = Some k'" "k = Suc k'"
      by auto
    from Cons.IH [OF k'(1)] have ih: "k' < length xs" "P (xs ! k')" "\<forall>j<k'. \<not> P (xs ! j)"
      by simp_all
    have "\<not> P ((x # xs) ! j)" if "j < k" for j
      using that False ih(3) k'(2) by (cases j) simp_all
    with ih k'(2) show ?thesis by simp
  qed
qed

lemma findFirst_SomeI:
  "k < length xs \<Longrightarrow> P (xs ! k) \<Longrightarrow> \<forall>j<k. \<not> P (xs ! j) \<Longrightarrow> findFirst P xs = Some k"
proof (cases "findFirst P xs")
  case None
  assume "k < length xs" "P (xs ! k)"
  with None show ?thesis by (auto simp: findFirst_None_iff)
next
  case (Some k')
  assume a: "k < length xs" "P (xs ! k)" "\<forall>j<k. \<not> P (xs ! j)"
  from findFirst_Some [OF Some] have b: "P (xs ! k')" "\<forall>j<k'. \<not> P (xs ! j)" by simp_all
  have "\<not> k' < k" using a(3) b(1) by auto
  moreover have "\<not> k < k'" using a(2) b(2) by auto
  ultimately show ?thesis using Some by simp
qed

lemma findFirst_map: "findFirst P (map f xs) = findFirst (\<lambda>x. P (f x)) xs"
  by (induction xs) simp_all

lemma findFirst_append:
  "findFirst P (xs @ ys) =
     (case findFirst P xs of Some k \<Rightarrow> Some k
      | None \<Rightarrow> map_option (\<lambda>k. length xs + k) (findFirst P ys))"
proof (induction xs)
  case Nil
  show ?case by (cases "findFirst P ys") simp_all
next
  case (Cons x xs)
  then show ?case
    by (cases "findFirst P xs"; cases "findFirst P ys") simp_all
qed

lemma findFirst_concat_None:
  "findFirst (\<lambda>found. found \<noteq> None) (map (findFirst P) xss) = None \<Longrightarrow>
   findFirst P (concat xss) = None"
  by (auto simp: findFirst_None_iff)

lemma findFirst_concat_Some:
  "findFirst (\<lambda>found. found \<noteq> None) (map (findFirst P) xss) = Some r \<Longrightarrow>
   findFirst P (xss ! r) = Some x \<Longrightarrow>
   findFirst P (concat xss) = Some (sum_list (map length (take r xss)) + x)"
proof (induction xss arbitrary: r)
  case Nil
  then show ?case by simp
next
  case (Cons xs xss)
  show ?case
  proof (cases "findFirst P xs")
    case None
    with Cons.prems(1) obtain r' where r': "r = Suc r'"
      "findFirst (\<lambda>found. found \<noteq> None) (map (findFirst P) xss) = Some r'"
      by auto
    with Cons.prems(2) have "findFirst P (xss ! r') = Some x" by simp
    from Cons.IH [OF r'(2) this] None r'(1) show ?thesis
      by (simp add: findFirst_append)
  next
    case (Some k)
    with Cons.prems(1) have "r = 0" by simp
    with Cons.prems(2) Some show ?thesis by (simp add: findFirst_append)
  qed
qed

section \<open>Writing one slot of a table\<close>

lemma concat_update:
  "r < length xss \<Longrightarrow> x < length (xss ! r) \<Longrightarrow>
   concat (xss[r := (xss ! r)[x := v]]) = (concat xss)[sum_list (map length (take r xss)) + x := v]"
proof (induction xss arbitrary: r)
  case Nil
  then show ?case by simp
next
  case (Cons xs xss)
  show ?case
  proof (cases r)
    case 0
    with Cons.prems show ?thesis by (simp add: list_update_append1)
  next
    case (Suc r')
    with Cons.prems have "r' < length xss" "x < length (xss ! r')" by simp_all
    from Cons.IH [OF this] Suc show ?thesis by (simp add: list_update_append)
  qed
qed

lemma map_update_same_image:
  assumes "f y = f (xs ! k)"
  shows "map f (xs[k := y]) = map f xs"
proof (cases "k < length xs")
  case True
  with assms show ?thesis
    by (intro nth_equalityI) (auto simp: nth_list_update)
next
  case False
  then have "length xs \<le> k" by simp
  then have "xs[k := y] = xs" by (rule list_update_beyond)
  then show ?thesis by simp
qed

lemma xPosition_write_slot:
  "map (map xPosition) (shells[r := (shells ! r)[x := (shells ! r ! x)\<lparr>particle := v\<rparr>]])
     = map (map xPosition) shells"
  by (rule map_update_same_image) (simp add: map_update_same_image)

lemma slotOccupants_write_slot:
  assumes "r < length shells" "x < length (shells ! r)"
  shows "slotOccupants (shells[r := (shells ! r)[x := (shells ! r ! x)\<lparr>particle := v\<rparr>]])
     = (slotOccupants shells)[sum_list (map length (take r shells)) + x := v]"
  using assms by (simp add: slotOccupants_def concat_update map_update)

section \<open>Reserving the next open slot, seen on the sequence of slots\<close>

lemma getParticleDestination_full:
  assumes "None \<notin> set (slotOccupants shells)"
  shows "getParticleDestination assertions p shells = Inl (if assertions then AssertionError else TypeError)"
proof -
  have "findFirst (\<lambda>pos. particle pos = None) row = None" if "row \<in> set shells" for row
    using assms that by (force simp: findFirst_None_iff slotOccupants_def)
  then have "findFirst (\<lambda>found. found \<noteq> None)
      (map (\<lambda>row. findFirst (\<lambda>pos. particle pos = None) row) shells) = None"
    by (simp add: findFirst_None_iff)
  then show ?thesis by (simp add: getParticleDestination_def)
qed

lemma getParticleDestination_open:
  assumes "findFirst (\<lambda>occupant. occupant = None) (slotOccupants shells) = Some k"
  shows "\<exists>destination shells'. getParticleDestination assertions p shells = Inr (destination, shells')
     \<and> slotOccupants shells' = (slotOccupants shells)[k := Some p]
     \<and> map (map xPosition) shells' = map (map xPosition) shells"
proof -
  let ?open = "\<lambda>pos::'a ParticleShellPosition. particle pos = None"
  let ?byRow = "map (findFirst ?open) shells"
  from assms have flat: "findFirst ?open (concat shells) = Some k"
    by (simp add: slotOccupants_def findFirst_map)
  show ?thesis
  proof (cases "findFirst (\<lambda>found. found \<noteq> None) ?byRow")
    case None
    from findFirst_concat_None [OF None] flat show ?thesis by simp
  next
    case (Some r)
    from findFirst_Some [OF Some] have r: "r < length shells" "?byRow ! r \<noteq> None"
      by (simp, blast)
    from r(2) have "findFirst ?open (shells ! r) \<noteq> None" unfolding nth_map [OF r(1)] .
    then obtain x where x: "findFirst ?open (shells ! r) = Some x" by blast
    from findFirst_Some [OF x] have xlt: "x < length (shells ! r)" by simp
    from findFirst_concat_Some [OF Some x] flat
    have k: "k = sum_list (map length (take r shells)) + x" by simp
    have "getParticleDestination assertions p shells =
        Inr ((xPosition (shells ! r ! x), r),
             shells[r := (shells ! r)[x := (shells ! r ! x)\<lparr>particle := Some p\<rparr>]])"
      using Some x r(1) by (simp add: getParticleDestination_def Let_def)
    with slotOccupants_write_slot [OF r(1) xlt, of "Some p"] k xPosition_write_slot [of shells r x "Some p"]
    show ?thesis by simp
  qed
qed

section \<open>Well-formed tables\<close>

lemma wellFormed_lengths: "wellFormed levels shells \<Longrightarrow> map length shells = map capacity levels"
proof -
  assume "wellFormed levels shells"
  then have "map length (map (map xPosition) shells) = map length (ALLOWED_PARTICLE_POSITIONS levels)"
    by (simp add: wellFormed_def)
  then show ?thesis by (simp add: ALLOWED_PARTICLE_POSITIONS_def comp_def)
qed

lemma wellFormed_length: "wellFormed levels shells \<Longrightarrow> length shells = length levels"
  using wellFormed_lengths [of levels shells] by (metis length_map)

lemma wellFormed_row_length:
  assumes "wellFormed levels shells" "r < length levels"
  shows "length (shells ! r) = capacity (levels ! r)"
proof -
  have "map length shells ! r = map capacity levels ! r"
    using wellFormed_lengths [OF assms(1)] by simp
  with assms wellFormed_length [OF assms(1)] show ?thesis by simp
qed

lemma wellFormed_offset:
  assumes "wellFormed levels shells"
  shows "sum_list (map length (take r shells)) = capacityBelow levels r"
proof -
  have "map length (take r shells) = map capacity (take r levels)"
    using wellFormed_lengths [OF assms] by (simp add: take_map [symmetric])
  then show ?thesis by (simp add: capacityBelow_def)
qed

lemma wellFormed_length_slots:
  assumes "wellFormed levels shells"
  shows "length (slotOccupants shells) = TOTAL_CAPACITY levels"
proof -
  have "length (slotOccupants shells) = sum_list (map length shells)"
    by (simp add: slotOccupants_def length_concat)
  also have "\<dots> = capacityBelow levels (length levels)"
    using wellFormed_lengths [OF assms] by (simp add: capacityBelow_def)
  finally show ?thesis by (simp add: TOTAL_CAPACITY_eq)
qed

lemma wellFormed_same_xPositions:
  "wellFormed levels shells \<Longrightarrow> map (map xPosition) shells' = map (map xPosition) shells \<Longrightarrow>
   wellFormed levels shells'"
  by (simp add: wellFormed_def)

lemma wellFormed_initial: "wellFormed levels (initialShellPositions levels)"
  by (simp add: wellFormed_def initialShellPositions_def comp_def)

lemma xPosition_clearSlots: "map (map xPosition) (clearSlots shells) = map (map xPosition) shells"
  by (simp add: clearSlots_def comp_def)

lemma slotOccupants_clearSlots:
  "slotOccupants (clearSlots shells) = replicate (length (slotOccupants shells)) None"
proof -
  have "slotOccupants (clearSlots shells) = map (\<lambda>pos. None) (concat shells)"
    by (simp add: slotOccupants_def clearSlots_def map_concat comp_def)
  then show ?thesis by (simp add: slotOccupants_def map_replicate_const)
qed

lemma slotOccupants_initial:
  "slotOccupants (initialShellPositions levels) = replicate (TOTAL_CAPACITY levels) None"
proof -
  have "slotOccupants (initialShellPositions levels :: 'a shells)
      = map (\<lambda>x. None) (concat (ALLOWED_PARTICLE_POSITIONS levels))"
    by (simp add: slotOccupants_def initialShellPositions_def map_concat comp_def)
  also have "\<dots> = replicate (length (slotOccupants (initialShellPositions levels :: 'a shells))) None"
    by (simp add: map_replicate_const slotOccupants_def initialShellPositions_def length_concat comp_def)
  finally show ?thesis by (simp add: wellFormed_length_slots [OF wellFormed_initial])
qed

lemma concat_same_shape:
  "map length xss = map length yss \<Longrightarrow> concat xss = concat yss \<Longrightarrow> xss = yss"
proof (induction xss arbitrary: yss)
  case Nil
  then show ?case by simp
next
  case (Cons xs xss)
  then obtain ys yss' where yss: "yss = ys # yss'" by (cases yss) auto
  with Cons.prems have "length xs = length ys" "xs @ concat xss = ys @ concat yss'"
    "map length xss = map length yss'"
    by simp_all
  then have "xs = ys" "concat xss = concat yss'" by simp_all
  with Cons.IH [OF \<open>map length xss = map length yss'\<close>] yss show ?case by simp
qed

lemma slots_equal:
  fixes xs ys :: "'p ParticleShellPosition list"
  assumes "map particle xs = map particle ys" "map xPosition xs = map xPosition ys"
  shows "xs = ys"
proof (rule nth_equalityI)
  from assms(1) show len: "length xs = length ys" by (metis length_map)
  fix i assume i: "i < length xs"
  from assms(1) i len have "particle (xs ! i) = particle (ys ! i)"
    by (metis nth_map)
  moreover from assms(2) i len have "xPosition (xs ! i) = xPosition (ys ! i)"
    by (metis nth_map)
  ultimately show "xs ! i = ys ! i" by simp
qed

lemma shells_equal:
  fixes shells shells' :: "'p shells"
  assumes x: "map (map xPosition) shells = map (map xPosition) shells'"
    and o: "slotOccupants shells = slotOccupants shells'"
  shows "shells = shells'"
proof -
  from x have "map length (map (map xPosition) shells) = map length (map (map xPosition) shells')"
    by simp
  then have shape: "map length shells = map length shells'" by (simp add: comp_def)
  from x have "concat (map (map xPosition) shells) = concat (map (map xPosition) shells')" by simp
  then have "map xPosition (concat shells) = map xPosition (concat shells')"
    by (simp add: map_concat)
  with o have "concat shells = concat shells'"
    by (intro slots_equal) (simp_all add: slotOccupants_def)
  with shape show ?thesis by (rule concat_same_shape)
qed

section \<open>Placing the counted particles\<close>

lemma getRowIndexForGlobalIndex_beyond:
  "int (TOTAL_CAPACITY levels) \<le> i \<Longrightarrow>
     getRowIndexForGlobalIndex assertions levels i =
       (if assertions then Inl AssertionError else Inr (int (length levels) - 1))"
  using getRowIndexLoop_past_end [of levels i 0]
  by (simp add: getRowIndexForGlobalIndex_def TOTAL_CAPACITY_eq capacityBelow_0)

lemma placeParticle_in_range:
  assumes wf: "wellFormed levels shells" and index: "index < TOTAL_CAPACITY levels"
  shows "\<exists>shells'. placeParticle assertions levels p index shells = Inr shells'
     \<and> slotOccupants shells' = (slotOccupants shells)[index := Some p]
     \<and> map (map xPosition) shells' = map (map xPosition) shells"
proof -
  from index getRowIndexForGlobalIndex_in_range [of "int index" levels assertions]
  obtain r where r: "getRowIndexForGlobalIndex assertions levels (int index) = Inr (int r)"
    "r < length levels" "capacityBelow levels r \<le> index" "index < capacityBelow levels (Suc r)"
    by auto
  define x where "x = index - capacityBelow levels r"
  have xnat: "nat (int index - int (capacityBelow levels r)) = x"
    using r(3) by (simp add: x_def)
  have local: "getLocalXIndex levels (int index) (int r) = Inr (Some x)"
    using r xnat by (simp add: getLocalXIndex_eq)
  have xlt: "x < length (shells ! r)"
    using r wellFormed_row_length [OF wf r(2)] by (simp add: x_def capacityBelow_Suc)
  have rlt: "r < length shells" using r(2) wellFormed_length [OF wf] by simp
  have "placeParticle assertions levels p index shells =
      Inr (shells[r := (shells ! r)[x := (shells ! r ! x)\<lparr>particle := Some p\<rparr>]])"
    using r(1) local xlt rlt by (simp add: placeParticle_def)
  moreover have "sum_list (map length (take r shells)) + x = index"
    using r(3) by (simp add: wellFormed_offset [OF wf] x_def)
  ultimately show ?thesis
    using slotOccupants_write_slot [OF rlt xlt, of "Some p"] xPosition_write_slot [of shells r x "Some p"]
    by simp
qed

lemma placeParticle_past_end:
  assumes "TOTAL_CAPACITY levels \<le> index"
  shows "\<exists>e. placeParticle assertions levels p index shells = Inl e"
proof (cases assertions)
  case True
  with assms show ?thesis
    by (simp add: placeParticle_def getRowIndexForGlobalIndex_beyond)
next
  case False
  with assms have row: "getRowIndexForGlobalIndex assertions levels (int index)
      = Inr (int (length levels) - 1)"
    by (simp add: getRowIndexForGlobalIndex_beyond)
  show ?thesis
  proof (cases "levels = []")
    case True
    then have "getLocalXIndex levels (int index) (int (length levels) - 1) = Inl TypeError"
      by (simp add: getLocalXIndex_def)
    with row show ?thesis by (simp add: placeParticle_def)
  next
    case False
    define r where "r = length levels - 1"
    from False have "0 < length levels" by simp
    then have r: "r < length levels" "int (length levels) - 1 = int r" "Suc r = length levels"
      unfolding r_def by linarith+
    have "\<not> int index < int (capacityBelow levels (Suc r))"
      using assms r(3) by (simp add: TOTAL_CAPACITY_eq)
    then have "getLocalXIndex levels (int index) (int r) = Inr None"
      using r(1) by (simp add: getLocalXIndex_eq)
    with row r(2) show ?thesis by (simp add: placeParticle_def)
  qed
qed

lemma take_Suc_update:
  "k < length xs \<Longrightarrow> take (Suc k) (xs[k := v]) = take k xs @ [v]"
  by (simp add: take_Suc_conv_app_nth)

lemma placeParticles_fit:
  "wellFormed levels shells \<Longrightarrow> start + length ps \<le> TOTAL_CAPACITY levels \<Longrightarrow>
   \<exists>shells'. placeParticles assertions levels ps start shells = Inr shells'
     \<and> map (map xPosition) shells' = map (map xPosition) shells
     \<and> slotOccupants shells' =
         take start (slotOccupants shells) @ map Some ps @ drop (start + length ps) (slotOccupants shells)"
proof (induction ps arbitrary: start shells)
  case Nil
  then show ?case by simp
next
  case (Cons p ps)
  from Cons.prems have start: "start < TOTAL_CAPACITY levels" by simp
  from placeParticle_in_range [OF Cons.prems(1) start, of assertions p]
  obtain shells1 where s1: "placeParticle assertions levels p start shells = Inr shells1"
    "slotOccupants shells1 = (slotOccupants shells)[start := Some p]"
    "map (map xPosition) shells1 = map (map xPosition) shells"
    by blast
  have wf1: "wellFormed levels shells1"
    using Cons.prems(1) s1(3) by (rule wellFormed_same_xPositions)
  from Cons.prems(2) have fit1: "Suc start + length ps \<le> TOTAL_CAPACITY levels" by simp
  from Cons.IH [OF wf1 fit1]
  obtain shells' where s': "placeParticles assertions levels ps (Suc start) shells1 = Inr shells'"
    "map (map xPosition) shells' = map (map xPosition) shells1"
    "slotOccupants shells' = take (Suc start) (slotOccupants shells1) @ map Some ps
        @ drop (Suc start + length ps) (slotOccupants shells1)"
    by blast
  have len: "start < length (slotOccupants shells)"
    using start wellFormed_length_slots [OF Cons.prems(1)] by simp
  have "take (Suc start) (slotOccupants shells1) = take start (slotOccupants shells) @ [Some p]"
    unfolding s1(2) using len by (rule take_Suc_update)
  moreover have "drop (Suc start + length ps) (slotOccupants shells1)
      = drop (Suc start + length ps) (slotOccupants shells)"
    unfolding s1(2) by (rule drop_update_cancel) simp
  ultimately have "slotOccupants shells' = take start (slotOccupants shells) @ map Some (p # ps)
        @ drop (start + length (p # ps)) (slotOccupants shells)"
    using s'(3) by simp
  with s1(1) s1(3) s'(1) s'(2) show ?case by simp
qed

lemma placeParticles_overflow:
  "wellFormed levels shells \<Longrightarrow> TOTAL_CAPACITY levels < start + length ps \<Longrightarrow>
   start \<le> TOTAL_CAPACITY levels \<Longrightarrow>
   \<exists>e. placeParticles assertions levels ps start shells = Inl e"
proof (induction ps arbitrary: start shells)
  case Nil
  then show ?case by simp
next
  case (Cons p ps)
  show ?case
  proof (cases "start < TOTAL_CAPACITY levels")
    case True
    from placeParticle_in_range [OF Cons.prems(1) True, of assertions p]
    obtain shells1 where s1: "placeParticle assertions levels p start shells = Inr shells1"
      "map (map xPosition) shells1 = map (map xPosition) shells"
      by blast
    have wf1: "wellFormed levels shells1"
      using Cons.prems(1) s1(2) by (rule wellFormed_same_xPositions)
    from Cons.prems(2) have "TOTAL_CAPACITY levels < Suc start + length ps" by simp
    moreover from True have "Suc start \<le> TOTAL_CAPACITY levels" by simp
    ultimately show ?thesis using Cons.IH [OF wf1] s1(1) by simp
  next
    case False
    then have "TOTAL_CAPACITY levels \<le> start" by simp
    from placeParticle_past_end [OF this, of assertions p shells] show ?thesis by auto
  qed
qed

section \<open>Restoring the reservations\<close>

lemma findFirst_prefix_filled:
  "0 < m \<Longrightarrow> findFirst (\<lambda>occupant. occupant = None) (map Some qs @ replicate m None) = Some (length qs)"
  by (intro findFirst_SomeI) (simp_all add: nth_append)

lemma update_prefix_filled:
  "0 < m \<Longrightarrow> (map Some qs @ replicate m None)[length qs := Some p]
      = map Some (qs @ [p]) @ replicate (m - 1) None"
  by (cases m) (simp_all add: list_update_append)

lemma restoreReservations_fit:
  "slotOccupants shells = map Some qs @ replicate m None \<Longrightarrow> length incoming \<le> m \<Longrightarrow>
   \<exists>shells'. restoreReservations assertions incoming shells = Inr shells'
     \<and> map (map xPosition) shells' = map (map xPosition) shells
     \<and> slotOccupants shells' = map Some (qs @ incoming) @ replicate (m - length incoming) None"
proof (induction incoming arbitrary: shells qs m)
  case Nil
  then show ?case by simp
next
  case (Cons p incoming)
  from Cons.prems(2) have m: "0 < m" by simp
  have "findFirst (\<lambda>occupant. occupant = None) (slotOccupants shells) = Some (length qs)"
    unfolding Cons.prems(1) using m by (rule findFirst_prefix_filled)
  from getParticleDestination_open [OF this, of assertions p]
  obtain destination shells1 where
    s1: "getParticleDestination assertions p shells = Inr (destination, shells1)"
      "slotOccupants shells1 = (slotOccupants shells)[length qs := Some p]"
      "map (map xPosition) shells1 = map (map xPosition) shells"
    by blast
  have o1: "slotOccupants shells1 = map Some (qs @ [p]) @ replicate (m - 1) None"
    unfolding s1(2) Cons.prems(1) using m by (rule update_prefix_filled)
  from Cons.prems(2) have "length incoming \<le> m - 1" by simp
  from Cons.IH [OF o1 this]
  obtain shells' where s': "restoreReservations assertions incoming shells1 = Inr shells'"
    "map (map xPosition) shells' = map (map xPosition) shells1"
    "slotOccupants shells' = map Some ((qs @ [p]) @ incoming) @ replicate (m - 1 - length incoming) None"
    by blast
  from s1(1) s1(3) s' show ?case by simp
qed

lemma restoreReservations_overflow:
  "slotOccupants shells = map Some qs @ replicate m None \<Longrightarrow> m < length incoming \<Longrightarrow>
   \<exists>e. restoreReservations assertions incoming shells = Inl e"
proof (induction incoming arbitrary: shells qs m)
  case Nil
  then show ?case by simp
next
  case (Cons p incoming)
  show ?case
  proof (cases "m = 0")
    case True
    with Cons.prems(1) have "None \<notin> set (slotOccupants shells)" by auto
    from getParticleDestination_full [OF this, of assertions p] show ?thesis by simp
  next
    case False
    then have m: "0 < m" by simp
    have "findFirst (\<lambda>occupant. occupant = None) (slotOccupants shells) = Some (length qs)"
      unfolding Cons.prems(1) using m by (rule findFirst_prefix_filled)
    from getParticleDestination_open [OF this, of assertions p]
    obtain destination shells1 where
      s1: "getParticleDestination assertions p shells = Inr (destination, shells1)"
        "slotOccupants shells1 = (slotOccupants shells)[length qs := Some p]"
      by blast
    have o1: "slotOccupants shells1 = map Some (qs @ [p]) @ replicate (m - 1) None"
      unfolding s1(2) Cons.prems(1) using m by (rule update_prefix_filled)
    from Cons.prems(2) m have "m - 1 < length incoming" by simp
    from Cons.IH [OF o1 this] s1(1) show ?thesis by simp
  qed
qed

section \<open>The result of updateNucleonPositions\<close>

lemma map_filter_particle:
  "List.map_filter particle (concat shells)
     = map the (filter (\<lambda>occupant. occupant \<noteq> None) (slotOccupants shells))"
  by (simp add: List.map_filter_def slotOccupants_def filter_map comp_def)

lemma occupants_prefix_filled:
  "slotOccupants shells = map Some qs @ replicate m None \<Longrightarrow>
   List.map_filter particle (concat shells) = qs"
  by (simp add: map_filter_particle filter_map comp_def)

lemma incoming_not_counted: "p \<in> set (incomingParticlesOf ps shells) \<Longrightarrow> p \<notin> set ps"
  by (simp add: incomingParticlesOf_def)

lemma placeParticles_on_cleared:
  assumes wf: "wellFormed levels shells" and fit: "length ps \<le> TOTAL_CAPACITY levels"
  shows "\<exists>placed. placeParticles assertions levels ps 0 (clearSlots shells) = Inr placed
     \<and> map (map xPosition) placed = map (map xPosition) shells
     \<and> slotOccupants placed = map Some ps @ replicate (TOTAL_CAPACITY levels - length ps) None"
proof -
  have wfc: "wellFormed levels (clearSlots shells)"
    using wf xPosition_clearSlots by (rule wellFormed_same_xPositions)
  have cleared: "slotOccupants (clearSlots shells) = replicate (TOTAL_CAPACITY levels) None"
    by (simp add: slotOccupants_clearSlots wellFormed_length_slots [OF wf])
  from fit have "0 + length ps \<le> TOTAL_CAPACITY levels" by simp
  from placeParticles_fit [OF wfc this, of assertions]
  obtain placed where p: "placeParticles assertions levels ps 0 (clearSlots shells) = Inr placed"
    "map (map xPosition) placed = map (map xPosition) (clearSlots shells)"
    "slotOccupants placed = take 0 (slotOccupants (clearSlots shells)) @ map Some ps
        @ drop (0 + length ps) (slotOccupants (clearSlots shells))"
    by blast
  from p(3) have "slotOccupants placed = map Some ps @ replicate (TOTAL_CAPACITY levels - length ps) None"
    by (simp add: cleared)
  with p(1) p(2) show ?thesis by (simp add: xPosition_clearSlots)
qed

lemma updateNucleonPositions_after_placing:
  assumes wf: "wellFormed levels shells" and fit: "length ps \<le> TOTAL_CAPACITY levels"
  shows "\<exists>placed. map (map xPosition) placed = map (map xPosition) shells
     \<and> slotOccupants placed = map Some ps @ replicate (TOTAL_CAPACITY levels - length ps) None
     \<and> updateNucleonPositions assertions levels ps shells =
         (if assertions \<and> \<not> distinct ps then Inl AssertionError
          else restoreReservations assertions (incomingParticlesOf ps shells) placed)"
proof -
  from placeParticles_on_cleared [OF wf fit, of assertions]
  obtain placed where p: "placeParticles assertions levels ps 0 (clearSlots shells) = Inr placed"
    "map (map xPosition) placed = map (map xPosition) shells"
    "slotOccupants placed = map Some ps @ replicate (TOTAL_CAPACITY levels - length ps) None"
    by blast
  have "filter (\<lambda>p. p \<notin> set (incomingParticlesOf ps shells)) ps = ps"
    using incoming_not_counted [of _ ps shells] by (auto simp: filter_id_conv)
  then have "filter (\<lambda>p. p \<notin> set (incomingParticlesOf ps shells))
      (List.map_filter particle (concat placed)) = ps"
    by (simp add: occupants_prefix_filled [OF p(3)])
  then have "updateNucleonPositions assertions levels ps shells =
         (if assertions \<and> \<not> distinct ps then Inl AssertionError
          else restoreReservations assertions (incomingParticlesOf ps shells) placed)"
    by (simp add: updateNucleonPositions_def p(1) Let_def)
  with p(2) p(3) show ?thesis by blast
qed

lemma updateNucleonPositions_succeeds:
  assumes wf: "wellFormed levels shells"
    and fit: "length ps + length (incomingParticlesOf ps shells) \<le> TOTAL_CAPACITY levels"
    and dup: "assertions \<longrightarrow> distinct ps"
  shows "\<exists>shells'. updateNucleonPositions assertions levels ps shells = Inr shells'
     \<and> wellFormed levels shells'
     \<and> slotOccupants shells' = map Some (ps @ incomingParticlesOf ps shells)
         @ replicate (TOTAL_CAPACITY levels - (length ps + length (incomingParticlesOf ps shells))) None"
proof -
  from fit have fit1: "length ps \<le> TOTAL_CAPACITY levels" by simp
  from updateNucleonPositions_after_placing [OF wf fit1, of assertions]
  obtain placed where p: "map (map xPosition) placed = map (map xPosition) shells"
    "slotOccupants placed = map Some ps @ replicate (TOTAL_CAPACITY levels - length ps) None"
    "updateNucleonPositions assertions levels ps shells =
         (if assertions \<and> \<not> distinct ps then Inl AssertionError
          else restoreReservations assertions (incomingParticlesOf ps shells) placed)"
    by blast
  from fit have "length (incomingParticlesOf ps shells) \<le> TOTAL_CAPACITY levels - length ps" by simp
  from restoreReservations_fit [OF p(2) this, of assertions]
  obtain shells' where s': "restoreReservations assertions (incomingParticlesOf ps shells) placed = Inr shells'"
    "map (map xPosition) shells' = map (map xPosition) placed"
    "slotOccupants shells' = map Some (ps @ incomingParticlesOf ps shells)
       @ replicate (TOTAL_CAPACITY levels - length ps - length (incomingParticlesOf ps shells)) None"
    by blast
  have "wellFormed levels shells'"
    using wf s'(2) p(1) by (simp add: wellFormed_def)
  with p(3) dup s'(1) s'(3) show ?thesis by simp
qed

lemma updateNucleonPositions_Inr:
  assumes wf: "wellFormed levels shells"
    and ret: "updateNucleonPositions assertions levels ps shells = Inr shells'"
  shows "length ps + length (incomingParticlesOf ps shells) \<le> TOTAL_CAPACITY levels"
    and "assertions \<longrightarrow> distinct ps"
proof -
  have wfc: "wellFormed levels (clearSlots shells)"
    using wf xPosition_clearSlots by (rule wellFormed_same_xPositions)
  have fit1: "length ps \<le> TOTAL_CAPACITY levels"
  proof (rule ccontr)
    assume "\<not> length ps \<le> TOTAL_CAPACITY levels"
    then have "TOTAL_CAPACITY levels < 0 + length ps" by simp
    from placeParticles_overflow [OF wfc this, of assertions] ret show False
      by (auto simp: updateNucleonPositions_def)
  qed
  from updateNucleonPositions_after_placing [OF wf fit1, of assertions]
  obtain placed where p:
    "slotOccupants placed = map Some ps @ replicate (TOTAL_CAPACITY levels - length ps) None"
    "updateNucleonPositions assertions levels ps shells =
         (if assertions \<and> \<not> distinct ps then Inl AssertionError
          else restoreReservations assertions (incomingParticlesOf ps shells) placed)"
    by blast
  from p(2) ret show dup: "assertions \<longrightarrow> distinct ps" by (auto split: if_splits)
  with p(2) ret have r: "restoreReservations assertions (incomingParticlesOf ps shells) placed = Inr shells'"
    by (auto split: if_splits)
  show "length ps + length (incomingParticlesOf ps shells) \<le> TOTAL_CAPACITY levels"
  proof (rule ccontr)
    assume "\<not> length ps + length (incomingParticlesOf ps shells) \<le> TOTAL_CAPACITY levels"
    then have "TOTAL_CAPACITY levels - length ps < length (incomingParticlesOf ps shells)"
      using fit1 by simp
    from restoreReservations_overflow [OF p(1) this, of assertions] r show False by simp
  qed
qed

section \<open>Reserving and releasing\<close>

lemma findFirst_open_exists:
  "None \<in> set occupants \<Longrightarrow> \<exists>k. findFirst (\<lambda>occupant. occupant = None) occupants = Some k"
  by (cases "findFirst (\<lambda>occupant. occupant = None) occupants") (auto simp: findFirst_None_iff)

lemma xPosition_removeParticleFromShell:
  "map (map xPosition) (removeParticleFromShell p shells) = map (map xPosition) shells"
proof -
  have "xPosition (if particle pos = Some p then pos\<lparr>particle := None\<rparr> else pos) = xPosition pos"
    for pos :: "'a ParticleShellPosition"
    by simp
  then show ?thesis by (simp add: removeParticleFromShell_def comp_def)
qed

lemma slotOccupants_removeParticleFromShell:
  "slotOccupants (removeParticleFromShell p shells)
     = map (\<lambda>occupant. if occupant = Some p then None else occupant) (slotOccupants shells)"
proof -
  have "particle (if particle pos = Some p then pos\<lparr>particle := None\<rparr> else pos)
      = (if particle pos = Some p then None else particle pos)"
    for pos :: "'a ParticleShellPosition"
    by simp
  then show ?thesis
    by (simp add: removeParticleFromShell_def slotOccupants_def map_concat comp_def)
qed

lemma removeParticleFromShell_absent:
  assumes "Some p \<notin> set (slotOccupants shells)"
  shows "removeParticleFromShell p shells = shells"
proof (rule shells_equal)
  show "map (map xPosition) (removeParticleFromShell p shells) = map (map xPosition) shells"
    by (rule xPosition_removeParticleFromShell)
  have "map (\<lambda>occupant. if occupant = Some p then None else occupant) (slotOccupants shells)
      = slotOccupants shells"
    using assms by (intro map_idI) auto
  then show "slotOccupants (removeParticleFromShell p shells) = slotOccupants shells"
    by (simp add: slotOccupants_removeParticleFromShell)
qed

text \<open>
  Claim C5 (amended). In every table with a free slot, for a particle that occupies no
  slot of the table, \<open>getParticleDestination\<close> followed by \<open>removeParticleFromShell\<close> of the
  same particle gives the table back unchanged; and \<open>removeParticleFromShell\<close> leaves a
  table unchanged when the particle occupies no slot of it.
\<close>

theorem reserve_then_release_restores:
  "(None \<in> set (slotOccupants shells) \<and> Some p \<notin> set (slotOccupants shells) \<longrightarrow>
      (\<exists>destination shells'. getParticleDestination assertions p shells = Inr (destination, shells')
          \<and> removeParticleFromShell p shells' = shells))
   \<and> (Some p \<notin> set (slotOccupants shells) \<longrightarrow> removeParticleFromShell p shells = shells)"
proof (intro conjI impI)
  assume a: "None \<in> set (slotOccupants shells) \<and> Some p \<notin> set (slotOccupants shells)"
  then obtain k where k: "findFirst (\<lambda>occupant. occupant = None) (slotOccupants shells) = Some k"
    using findFirst_open_exists by blast
  from findFirst_Some [OF k] have kprops: "k < length (slotOccupants shells)" "slotOccupants shells ! k = None"
    by simp_all
  from getParticleDestination_open [OF k, of assertions p]
  obtain destination shells' where
    s': "getParticleDestination assertions p shells = Inr (destination, shells')"
      "slotOccupants shells' = (slotOccupants shells)[k := Some p]"
      "map (map xPosition) shells' = map (map xPosition) shells"
    by blast
  have same: "map (\<lambda>occupant. if occupant = Some p then None else occupant) (slotOccupants shells)
      = slotOccupants shells"
    using a by (intro map_idI) auto
  have "slotOccupants (removeParticleFromShell p shells')
      = (map (\<lambda>occupant. if occupant = Some p then None else occupant) (slotOccupants shells))[k := None]"
    by (simp add: slotOccupants_removeParticleFromShell s'(2) map_update)
  also have "\<dots> = (slotOccupants shells)[k := None]" by (simp only: same)
  also have "\<dots> = slotOccupants shells"
    using kprops(2) by (metis list_update_id)
  finally have "slotOccupants (removeParticleFromShell p shells') = slotOccupants shells" .
  moreover have "map (map xPosition) (removeParticleFromShell p shells') = map (map xPosition) shells"
    by (simp add: xPosition_removeParticleFromShell s'(3))
  ultimately have "removeParticleFromShell p shells' = shells" by (intro shells_equal)
  with s'(1) show "\<exists>destination shells'. getParticleDestination assertions p shells = Inr (destination, shells')
          \<and> removeParticleFromShell p shells' = shells"
    by blast
next
  assume "Some p \<notin> set (slotOccupants shells)"
  then show "removeParticleFromShell p shells = shells" by (rule removeParticleFromShell_absent)
qed

theorem reserve_then_release_restores_witness:
  "None \<in> set (slotOccupants (initialShellPositions ENERGY_LEVELS :: nat shells))
   \<and> Some 5 \<notin> set (slotOccupants (initialShellPositions ENERGY_LEVELS :: nat shells))
   \<and> (\<exists>destination shells'.
        getParticleDestination True 5 (initialShellPositions ENERGY_LEVELS :: nat shells)
          = Inr (destination, shells')
        \<and> removeParticleFromShell 5 shells' = initialShellPositions ENERGY_LEVELS)
   \<and> removeParticleFromShell 5 (initialShellPositions ENERGY_LEVELS :: nat shells)
        = initialShellPositions ENERGY_LEVELS"
proof -
  have h: "None \<in> set (slotOccupants (initialShellPositions ENERGY_LEVELS :: nat shells))
      \<and> Some 5 \<notin> set (slotOccupants (initialShellPositions ENERGY_LEVELS :: nat shells))"
    by code_simp
  with reserve_then_release_restores [of "initialShellPositions ENERGY_LEVELS :: nat shells" 5 True]
  show ?thesis by blast
qed

text \<open>
  The round trip fails for a particle that already occupies a slot: in the program's
  table with particle 0 in the first slot, reserving the next open slot for particle 0
  and releasing it empties both slots.
\<close>

theorem reserve_then_release_occupied_particle:
  "None \<in> set (slotOccupants
      ((initialShellPositions ENERGY_LEVELS)
         [0 := [\<lparr>particle = Some (0::nat), xPosition = 0\<rparr>, \<lparr>particle = None, xPosition = 1\<rparr>]]))
   \<and> getParticleDestination True 0
      ((initialShellPositions ENERGY_LEVELS)
         [0 := [\<lparr>particle = Some (0::nat), xPosition = 0\<rparr>, \<lparr>particle = None, xPosition = 1\<rparr>]])
     = Inr ((1, 0), (initialShellPositions ENERGY_LEVELS)
         [0 := [\<lparr>particle = Some 0, xPosition = 0\<rparr>, \<lparr>particle = Some 0, xPosition = 1\<rparr>]])
   \<and> removeParticleFromShell 0 ((initialShellPositions ENERGY_LEVELS)
         [0 := [\<lparr>particle = Some (0::nat), xPosition = 0\<rparr>, \<lparr>particle = Some 0, xPosition = 1\<rparr>]])
     \<noteq> (initialShellPositions ENERGY_LEVELS)
         [0 := [\<lparr>particle = Some 0, xPosition = 0\<rparr>, \<lparr>particle = None, xPosition = 1\<rparr>]]"
  by code_simp

section \<open>The first free slot\<close>

lemma wellFormed_xPosition:
  assumes wf: "wellFormed levels shells" and r: "r < length shells" and x: "x < length (shells ! r)"
  shows "xPosition (shells ! r ! x) = x"
proof -
  from r wellFormed_length [OF wf] have rl: "r < length levels" by simp
  from x wellFormed_row_length [OF wf rl] have xc: "x < capacity (levels ! r)" by simp
  have "map (map xPosition) shells ! r ! x = ALLOWED_PARTICLE_POSITIONS levels ! r ! x"
    using wf by (simp add: wellFormed_def)
  with r x rl xc show ?thesis by (simp add: nth_ALLOWED_row)
qed

text \<open>
  Claim C6. When every slot of every row is occupied, \<open>getParticleDestination\<close> fails:
  on its assertion when assertions are enabled, on the write to the missing slot when they
  are not. When some slot is free, it writes the particle into the first free slot, rows
  in order and slots in order within the row, changes nothing else, and returns the
  coordinate \<open>(xPosition, row)\<close> of that slot, whose \<open>xPosition\<close> is the index of the slot in
  a well-formed table.
\<close>

theorem getParticleDestination_first_free_slot:
  "(None \<notin> set (slotOccupants shells) \<longrightarrow>
      getParticleDestination assertions p shells
        = Inl (if assertions then AssertionError else TypeError))
   \<and> (None \<in> set (slotOccupants shells) \<longrightarrow>
      (\<exists>r x. r < length shells \<and> x < length (shells ! r) \<and> particle (shells ! r ! x) = None
         \<and> (\<forall>r' x'. r' < length shells \<and> x' < length (shells ! r') \<and> (r' < r \<or> r' = r \<and> x' < x)
               \<longrightarrow> particle (shells ! r' ! x') \<noteq> None)
         \<and> getParticleDestination assertions p shells
             = Inr ((xPosition (shells ! r ! x), r),
                    shells[r := (shells ! r)[x := (shells ! r ! x)\<lparr>particle := Some p\<rparr>]])
         \<and> (wellFormed levels shells \<longrightarrow> xPosition (shells ! r ! x) = x)))"
proof (intro conjI impI)
  assume "None \<notin> set (slotOccupants shells)"
  then show "getParticleDestination assertions p shells
        = Inl (if assertions then AssertionError else TypeError)"
    by (rule getParticleDestination_full)
next
  let ?open = "\<lambda>pos::'a ParticleShellPosition. particle pos = None"
  let ?byRow = "map (findFirst ?open) shells"
  assume "None \<in> set (slotOccupants shells)"
  then have "None \<in> particle ` set (concat shells)" by (simp add: slotOccupants_def)
  then obtain pos where pos0: "pos \<in> set (concat shells)" "None = particle pos" by (rule imageE)
  then have pos: "pos \<in> set (concat shells)" "particle pos = None" by simp_all
  from pos(1) obtain row where "row \<in> set shells" "pos \<in> set row" by auto
  with pos(2) have row: "row \<in> set shells" "\<exists>pos\<in>set row. particle pos = None"
    by blast+
  then have "findFirst ?open row \<noteq> None" by (simp add: findFirst_None_iff)
  with row(1) have "findFirst (\<lambda>found. found \<noteq> None) ?byRow \<noteq> None"
    by (auto simp: findFirst_None_iff)
  then obtain r where r: "findFirst (\<lambda>found. found \<noteq> None) ?byRow = Some r" by blast
  from findFirst_Some [OF r] have rl: "r < length shells" by simp
  from findFirst_Some [OF r] have found: "?byRow ! r \<noteq> None" by blast
  from findFirst_Some [OF r] have before: "\<forall>j<r. ?byRow ! j = None" by blast
  from found have "findFirst ?open (shells ! r) \<noteq> None" unfolding nth_map [OF rl] .
  then obtain x where x: "findFirst ?open (shells ! r) = Some x" by blast
  from findFirst_Some [OF x]
  have xl: "x < length (shells ! r)" and free: "particle (shells ! r ! x) = None"
    and left: "\<forall>j<x. particle (shells ! r ! j) \<noteq> None"
    by simp_all
  have earlier: "particle (shells ! r' ! x') \<noteq> None"
    if "r' < length shells \<and> x' < length (shells ! r') \<and> (r' < r \<or> r' = r \<and> x' < x)" for r' x'
  proof (cases "r' < r")
    case True
    with before have "?byRow ! r' = None" by blast
    moreover from that have "r' < length shells" by blast
    ultimately have "findFirst ?open (shells ! r') = None" by simp
    with that show ?thesis by (simp add: findFirst_None_iff)
  next
    case False
    with that left show ?thesis by auto
  qed
  have result: "getParticleDestination assertions p shells
             = Inr ((xPosition (shells ! r ! x), r),
                    shells[r := (shells ! r)[x := (shells ! r ! x)\<lparr>particle := Some p\<rparr>]])"
    using r x rl by (simp add: getParticleDestination_def Let_def)
  have "wellFormed levels shells \<longrightarrow> xPosition (shells ! r ! x) = x"
    using rl xl by (simp add: wellFormed_xPosition)
  with rl xl free earlier result
  show "\<exists>r x. r < length shells \<and> x < length (shells ! r) \<and> particle (shells ! r ! x) = None
         \<and> (\<forall>r' x'. r' < length shells \<and> x' < length (shells ! r') \<and> (r' < r \<or> r' = r \<and> x' < x)
               \<longrightarrow> particle (shells ! r' ! x') \<noteq> None)
         \<and> getParticleDestination assertions p shells
             = Inr ((xPosition (shells ! r ! x), r),
                    shells[r := (shells ! r)[x := (shells ! r ! x)\<lparr>particle := Some p\<rparr>]])
         \<and> (wellFormed levels shells \<longrightarrow> xPosition (shells ! r ! x) = x)"
    by blast
qed

theorem getParticleDestination_first_free_slot_witness:
  "None \<notin> set (slotOccupants [[\<lparr>particle = Some (1::nat), xPosition = 0\<rparr>]])
   \<and> getParticleDestination False 2 [[\<lparr>particle = Some (1::nat), xPosition = 0\<rparr>]] = Inl TypeError
   \<and> None \<in> set (slotOccupants (initialShellPositions ENERGY_LEVELS :: nat shells))
   \<and> wellFormed ENERGY_LEVELS (initialShellPositions ENERGY_LEVELS :: nat shells)
   \<and> (\<exists>r x. getParticleDestination True 2 (initialShellPositions ENERGY_LEVELS :: nat shells)
             = Inr ((x, r), (initialShellPositions ENERGY_LEVELS)
                 [r := (initialShellPositions ENERGY_LEVELS ! r)
                    [x := (initialShellPositions ENERGY_LEVELS ! r ! x)\<lparr>particle := Some 2\<rparr>]]))"
proof -
  have full: "None \<notin> set (slotOccupants [[\<lparr>particle = Some (1::nat), xPosition = 0\<rparr>]])"
    by code_simp
  have free: "None \<in> set (slotOccupants (initialShellPositions ENERGY_LEVELS :: nat shells))"
    by code_simp
  have wf: "wellFormed ENERGY_LEVELS (initialShellPositions ENERGY_LEVELS :: nat shells)"
    by code_simp
  from getParticleDestination_first_free_slot
    [of "[[\<lparr>particle = Some (1::nat), xPosition = 0\<rparr>]]" False 2] full
  have "getParticleDestination False 2 [[\<lparr>particle = Some (1::nat), xPosition = 0\<rparr>]] = Inl TypeError"
    by simp
  moreover from getParticleDestination_first_free_slot
    [of "initialShellPositions ENERGY_LEVELS :: nat shells" True 2 ENERGY_LEVELS] free wf
  have "\<exists>r x. getParticleDestination True 2 (initialShellPositions ENERGY_LEVELS :: nat shells)
             = Inr ((x, r), (initialShellPositions ENERGY_LEVELS)
                 [r := (initialShellPositions ENERGY_LEVELS ! r)
                    [x := (initialShellPositions ENERGY_LEVELS ! r ! x)\<lparr>particle := Some 2\<rparr>]])"
    by metis
  ultimately show ?thesis using full free wf by blast
qed

section \<open>Properties of updateNucleonPositions\<close>

lemma occupied_prefix_filled:
  "filter (\<lambda>occupant. occupant \<noteq> None) (map Some qs @ replicate m None) = map Some qs"
  by (simp add: filter_map comp_def)

text \<open>
  Claim C3. For a sequence of \<open>N\<close> distinct particles with \<open>N \<le> TOTAL_CAPACITY\<close> and a
  table without reservations (every occupant of the table is in the sequence),
  \<open>updateNucleonPositions\<close> returns, with assertions enabled or not, a table in which exactly
  \<open>N\<close> slots are occupied, whose occupants are the particles of the sequence, none of them
  twice.
\<close>

theorem updateNucleonPositions_N_slots_no_duplicates:
  assumes "wellFormed levels shells"
    and "distinct ps"
    and "length ps \<le> TOTAL_CAPACITY levels"
    and "incomingParticlesOf ps shells = []"
  shows "\<exists>shells'. updateNucleonPositions assertions levels ps shells = Inr shells'
     \<and> length (filter (\<lambda>occupant. occupant \<noteq> None) (slotOccupants shells')) = length ps
     \<and> distinct (List.map_filter particle (concat shells'))
     \<and> set (List.map_filter particle (concat shells')) = set ps"
proof -
  from assms(3,4) have fit: "length ps + length (incomingParticlesOf ps shells) \<le> TOTAL_CAPACITY levels"
    by simp
  from assms(2) have dup: "assertions \<longrightarrow> distinct ps" by simp
  from updateNucleonPositions_succeeds [OF assms(1) fit dup]
  obtain shells' where s': "updateNucleonPositions assertions levels ps shells = Inr shells'"
    "slotOccupants shells' = map Some (ps @ incomingParticlesOf ps shells)
         @ replicate (TOTAL_CAPACITY levels - (length ps + length (incomingParticlesOf ps shells))) None"
    by blast
  from s'(2) assms(4)
  have o: "slotOccupants shells' = map Some ps @ replicate (TOTAL_CAPACITY levels - length ps) None"
    by simp
  have "length (filter (\<lambda>occupant. occupant \<noteq> None) (slotOccupants shells')) = length ps"
    unfolding o occupied_prefix_filled by simp
  moreover have "List.map_filter particle (concat shells') = ps"
    using o by (rule occupants_prefix_filled)
  ultimately show ?thesis using s'(1) assms(2) by simp
qed

theorem updateNucleonPositions_N_slots_no_duplicates_witness:
  "wellFormed ENERGY_LEVELS (initialShellPositions ENERGY_LEVELS :: nat shells)
   \<and> distinct [3, 1, 2 :: nat]
   \<and> length [3, 1, 2 :: nat] \<le> TOTAL_CAPACITY ENERGY_LEVELS
   \<and> incomingParticlesOf [3, 1, 2 :: nat] (initialShellPositions ENERGY_LEVELS) = []
   \<and> (\<exists>shells'. updateNucleonPositions True ENERGY_LEVELS [3, 1, 2 :: nat]
                    (initialShellPositions ENERGY_LEVELS) = Inr shells'
        \<and> length (filter (\<lambda>occupant. occupant \<noteq> None) (slotOccupants shells'))
            = length [3, 1, 2 :: nat]
        \<and> distinct (List.map_filter particle (concat shells'))
        \<and> set (List.map_filter particle (concat shells')) = set [3, 1, 2 :: nat])"
proof -
  have wf: "wellFormed ENERGY_LEVELS (initialShellPositions ENERGY_LEVELS :: nat shells)"
    by code_simp
  have d: "distinct [3, 1, 2 :: nat]" by simp
  have n: "length [3, 1, 2 :: nat] \<le> TOTAL_CAPACITY ENERGY_LEVELS"
    by (simp add: TOTAL_CAPACITY_ENERGY_LEVELS)
  have i: "incomingParticlesOf [3, 1, 2 :: nat] (initialShellPositions ENERGY_LEVELS) = []"
    by code_simp
  from updateNucleonPositions_N_slots_no_duplicates [OF wf d n i, of True] wf d n i
  show ?thesis by blast
qed

text \<open>
  Claim C9. On a well-formed table, when \<open>updateNucleonPositions\<close> returns for an input
  sequence, a second call with the same sequence on the table it produced returns that
  same table: the counted particles and the re-reserved incoming particles keep their
  slots.
\<close>

theorem updateNucleonPositions_idempotent:
  assumes "wellFormed levels shells"
    and "updateNucleonPositions assertions levels ps shells = Inr shells'"
  shows "updateNucleonPositions assertions levels ps shells' = Inr shells'"
proof -
  let ?inc = "incomingParticlesOf ps shells"
  let ?rest = "TOTAL_CAPACITY levels - (length ps + length ?inc)"
  from updateNucleonPositions_Inr [OF assms]
  have fit: "length ps + length ?inc \<le> TOTAL_CAPACITY levels"
    and dup: "assertions \<longrightarrow> distinct ps"
    by simp_all
  from updateNucleonPositions_succeeds [OF assms(1) fit dup] assms(2)
  have wf': "wellFormed levels shells'"
    and o': "slotOccupants shells' = map Some (ps @ ?inc) @ replicate ?rest None"
    by auto
  have "List.map_filter particle (concat shells') = ps @ ?inc"
    using o' by (rule occupants_prefix_filled)
  moreover have "filter (\<lambda>p. p \<notin> set ps) ?inc = ?inc"
    using incoming_not_counted [of _ ps shells] by (auto simp: filter_id_conv)
  ultimately have inc': "incomingParticlesOf ps shells' = ?inc"
    by (simp add: incomingParticlesOf_def [of ps shells'])
  from fit have fit': "length ps + length (incomingParticlesOf ps shells') \<le> TOTAL_CAPACITY levels"
    by (simp only: inc')
  from updateNucleonPositions_succeeds [OF wf' fit' dup]
  obtain shells'' where s'': "updateNucleonPositions assertions levels ps shells' = Inr shells''"
    "wellFormed levels shells''"
    "slotOccupants shells'' = map Some (ps @ incomingParticlesOf ps shells')
         @ replicate (TOTAL_CAPACITY levels - (length ps + length (incomingParticlesOf ps shells'))) None"
    by blast
  from s''(3) have "slotOccupants shells'' = slotOccupants shells'"
    by (simp only: inc' o')
  moreover from s''(2) wf' have "map (map xPosition) shells'' = map (map xPosition) shells'"
    by (simp add: wellFormed_def)
  ultimately have "shells'' = shells'" by (intro shells_equal)
  with s''(1) show ?thesis by simp
qed

theorem updateNucleonPositions_idempotent_witness:
  "wellFormed ENERGY_LEVELS
     ((initialShellPositions ENERGY_LEVELS)
        [0 := [\<lparr>particle = Some (7::nat), xPosition = 0\<rparr>, \<lparr>particle = None, xPosition = 1\<rparr>]])
   \<and> updateNucleonPositions True ENERGY_LEVELS [1, 2]
       ((initialShellPositions ENERGY_LEVELS)
          [0 := [\<lparr>particle = Some (7::nat), xPosition = 0\<rparr>, \<lparr>particle = None, xPosition = 1\<rparr>]])
     = Inr ((initialShellPositions ENERGY_LEVELS)
          [0 := [\<lparr>particle = Some 1, xPosition = 0\<rparr>, \<lparr>particle = Some 2, xPosition = 1\<rparr>],
           1 := [\<lparr>particle = Some 7, xPosition = 0\<rparr>, \<lparr>particle = None, xPosition = 1\<rparr>,
                 \<lparr>particle = None, xPosition = 2\<rparr>, \<lparr>particle = None, xPosition = 3\<rparr>]])
   \<and> updateNucleonPositions True ENERGY_LEVELS [1, 2]
       ((initialShellPositions ENERGY_LEVELS)
          [0 := [\<lparr>particle = Some 1, xPosition = 0\<rparr>, \<lparr>particle = Some 2, xPosition = 1\<rparr>],
           1 := [\<lparr>particle = Some (7::nat), xPosition = 0\<rparr>, \<lparr>particle = None, xPosition = 1\<rparr>,
                 \<lparr>particle = None, xPosition = 2\<rparr>, \<lparr>particle = None, xPosition = 3\<rparr>]])
     = Inr ((initialShellPositions ENERGY_LEVELS)
          [0 := [\<lparr>particle = Some 1, xPosition = 0\<rparr>, \<lparr>particle = Some 2, xPosition = 1\<rparr>],
           1 := [\<lparr>particle = Some 7, xPosition = 0\<rparr>, \<lparr>particle = None, xPosition = 1\<rparr>,
                 \<lparr>particle = None, xPosition = 2\<rparr>, \<lparr>particle = None, xPosition = 3\<rparr>]])"
proof -
  have wf: "wellFormed ENERGY_LEVELS
     ((initialShellPositions ENERGY_LEVELS)
        [0 := [\<lparr>particle = Some (7::nat), xPosition = 0\<rparr>, \<lparr>particle = None, xPosition = 1\<rparr>]])"
    by code_simp
  have first: "updateNucleonPositions True ENERGY_LEVELS [1, 2]
       ((initialShellPositions ENERGY_LEVELS)
          [0 := [\<lparr>particle = Some (7::nat), xPosition = 0\<rparr>, \<lparr>particle = None, xPosition = 1\<rparr>]])
     = Inr ((initialShellPositions ENERGY_LEVELS)
          [0 := [\<lparr>particle = Some 1, xPosition = 0\<rparr>, \<lparr>particle = Some 2, xPosition = 1\<rparr>],
           1 := [\<lparr>particle = Some 7, xPosition = 0\<rparr>, \<lparr>particle = None, xPosition = 1\<rparr>,
                 \<lparr>particle = None, xPosition = 2\<rparr>, \<lparr>particle = None, xPosition = 3\<rparr>]])"
    by code_simp
  from updateNucleonPositions_idempotent [OF wf first] wf first show ?thesis by blast
qed







section \<open>Reordering the input sequence\<close>

lemma filled_row_same_pattern:
  "map (\<lambda>pos. particle pos = None) row1 = map (\<lambda>pos. particle pos = None) row2 \<Longrightarrow>
   map (\<lambda>(x, pos). (r, x)) (filter (\<lambda>(x, pos). particle pos \<noteq> None) (enumerate n row1))
     = map (\<lambda>(x, pos). (r, x)) (filter (\<lambda>(x, pos). particle pos \<noteq> None) (enumerate n row2))"
proof (induction row1 arbitrary: row2 n)
  case Nil
  then show ?case by simp
next
  case (Cons pos1 row1)
  then obtain pos2 row2' where row2: "row2 = pos2 # row2'" by (cases row2) auto
  with Cons.prems have same: "(particle pos1 = None) = (particle pos2 = None)"
    "map (\<lambda>pos. particle pos = None) row1 = map (\<lambda>pos. particle pos = None) row2'"
    by simp_all
  from Cons.IH [OF same(2), of "Suc n"] same(1) row2 show ?case
    by (cases "particle pos1"; cases "particle pos2") simp_all
qed

lemma filledPositions_same_pattern_from:
  "map (map (\<lambda>pos. particle pos = None)) shells1 = map (map (\<lambda>pos. particle pos = None)) shells2 \<Longrightarrow>
   concat (map (\<lambda>(r, row). map (\<lambda>(x, pos). (r, x))
                                (filter (\<lambda>(x, pos). particle pos \<noteq> None) (enumerate 0 row)))
               (enumerate n shells1))
   = concat (map (\<lambda>(r, row). map (\<lambda>(x, pos). (r, x))
                                (filter (\<lambda>(x, pos). particle pos \<noteq> None) (enumerate 0 row)))
               (enumerate n shells2))"
proof (induction shells1 arbitrary: shells2 n)
  case Nil
  then show ?case by simp
next
  case (Cons row1 shells1)
  then obtain row2 shells2' where s2: "shells2 = row2 # shells2'" by (cases shells2) auto
  with Cons.prems have same: "map (\<lambda>pos. particle pos = None) row1 = map (\<lambda>pos. particle pos = None) row2"
    "map (map (\<lambda>pos. particle pos = None)) shells1 = map (map (\<lambda>pos. particle pos = None)) shells2'"
    by simp_all
  from Cons.IH [OF same(2), of "Suc n"] filled_row_same_pattern [OF same(1), of n 0] s2
  show ?case by simp
qed

lemma filledPositions_same_pattern:
  "map (map (\<lambda>pos. particle pos = None)) shells1 = map (map (\<lambda>pos. particle pos = None)) shells2 \<Longrightarrow>
   filledPositions shells1 = filledPositions shells2"
  unfolding filledPositions_def by (rule filledPositions_same_pattern_from)

lemma pattern_from_slotOccupants:
  assumes x: "map (map xPosition) shells1 = map (map xPosition) shells2"
    and o: "map (\<lambda>occupant. occupant = None) (slotOccupants shells1)
          = map (\<lambda>occupant. occupant = None) (slotOccupants shells2)"
  shows "map (map (\<lambda>pos. particle pos = None)) shells1 = map (map (\<lambda>pos. particle pos = None)) shells2"
proof (rule concat_same_shape)
  from x have "map length (map (map xPosition) shells1) = map length (map (map xPosition) shells2)"
    by simp
  then show "map length (map (map (\<lambda>pos. particle pos = None)) shells1)
      = map length (map (map (\<lambda>pos. particle pos = None)) shells2)"
    by (simp add: comp_def)
  from o show "concat (map (map (\<lambda>pos. particle pos = None)) shells1)
      = concat (map (map (\<lambda>pos. particle pos = None)) shells2)"
    by (simp add: slotOccupants_def map_concat [symmetric] comp_def)
qed

lemma free_pattern_prefix_filled:
  "map (\<lambda>occupant. occupant = None) (map Some qs @ replicate m None)
     = replicate (length qs) False @ replicate m True"
  by (simp add: comp_def map_replicate_const)

text \<open>
  Claim C10. On a well-formed table, when \<open>updateNucleonPositions\<close> returns for an input
  sequence, it returns for every permutation of that sequence too, and both results fill
  the same multiset of \<open>(row, slot)\<close> positions; and whenever the permutation differs from
  the sequence, some slot holds a different occupant in the two results.
\<close>

theorem updateNucleonPositions_permutation:
  assumes "wellFormed levels shells"
    and "mset qs = mset ps"
    and "updateNucleonPositions assertions levels ps shells = Inr shells1"
  shows "\<exists>shells2. updateNucleonPositions assertions levels qs shells = Inr shells2
     \<and> mset (filledPositions shells2) = mset (filledPositions shells1)
     \<and> (qs \<noteq> ps \<longrightarrow>
          (\<exists>k<length (slotOccupants shells1). slotOccupants shells2 ! k \<noteq> slotOccupants shells1 ! k))"
proof -
  let ?inc = "incomingParticlesOf ps shells"
  let ?rest = "TOTAL_CAPACITY levels - (length ps + length ?inc)"
  from assms(2) have sets: "set qs = set ps" by (rule mset_eq_setD)
  from assms(2) have len: "length qs = length ps" by (rule mset_eq_length)
  from assms(2) have dist: "distinct qs = distinct ps" by (rule mset_eq_imp_distinct_iff)
  have inc: "incomingParticlesOf qs shells = ?inc"
    by (simp add: incomingParticlesOf_def sets)
  from updateNucleonPositions_Inr [OF assms(1,3)]
  have fit: "length ps + length ?inc \<le> TOTAL_CAPACITY levels"
    and dup: "assertions \<longrightarrow> distinct ps"
    by simp_all
  from updateNucleonPositions_succeeds [OF assms(1) fit dup] assms(3)
  have wf1: "wellFormed levels shells1"
    and o1: "slotOccupants shells1 = map Some (ps @ ?inc) @ replicate ?rest None"
    by auto
  from fit have fitq: "length qs + length (incomingParticlesOf qs shells) \<le> TOTAL_CAPACITY levels"
    by (simp only: inc len)
  from dup have dupq: "assertions \<longrightarrow> distinct qs" by (simp only: dist)
  from updateNucleonPositions_succeeds [OF assms(1) fitq dupq]
  obtain shells2 where s2: "updateNucleonPositions assertions levels qs shells = Inr shells2"
    "wellFormed levels shells2"
    "slotOccupants shells2 = map Some (qs @ incomingParticlesOf qs shells)
       @ replicate (TOTAL_CAPACITY levels - (length qs + length (incomingParticlesOf qs shells))) None"
    by blast
  from s2(3) have o2: "slotOccupants shells2 = map Some (qs @ ?inc) @ replicate ?rest None"
    by (simp only: inc len)
  have "map (\<lambda>occupant. occupant = None) (slotOccupants shells2)
      = map (\<lambda>occupant. occupant = None) (slotOccupants shells1)"
    unfolding o1 o2 free_pattern_prefix_filled by (simp add: len)
  moreover from s2(2) wf1 have "map (map xPosition) shells2 = map (map xPosition) shells1"
    by (simp add: wellFormed_def)
  ultimately have "map (map (\<lambda>pos. particle pos = None)) shells2
      = map (map (\<lambda>pos. particle pos = None)) shells1"
    by (intro pattern_from_slotOccupants)
  then have filled: "filledPositions shells2 = filledPositions shells1"
    by (rule filledPositions_same_pattern)
  have differs: "\<exists>k<length (slotOccupants shells1). slotOccupants shells2 ! k \<noteq> slotOccupants shells1 ! k"
    if ne: "qs \<noteq> ps"
  proof (rule ccontr)
    assume "\<not> (\<exists>k<length (slotOccupants shells1). slotOccupants shells2 ! k \<noteq> slotOccupants shells1 ! k)"
    then have all: "\<forall>k<length (slotOccupants shells1). slotOccupants shells2 ! k = slotOccupants shells1 ! k"
      by blast
    have "length (slotOccupants shells2) = length (slotOccupants shells1)"
      unfolding o1 o2 by (simp add: len)
    with all have "slotOccupants shells2 = slotOccupants shells1"
      by (intro nth_equalityI) simp_all
    then have "map Some (qs @ ?inc) @ replicate ?rest None = map Some (ps @ ?inc) @ replicate ?rest None"
      by (simp only: o1 o2)
    then have "map Some qs = (map Some ps :: 'a option list)" by (simp add: len)
    then have "qs = ps" by simp
    with ne show False by contradiction
  qed
  from s2(1) filled differs show ?thesis by auto
qed

theorem updateNucleonPositions_permutation_witness:
  "wellFormed ENERGY_LEVELS (initialShellPositions ENERGY_LEVELS :: nat shells)
   \<and> mset [2, 1 :: nat] = mset [1, 2]
   \<and> [2, 1 :: nat] \<noteq> [1, 2]
   \<and> updateNucleonPositions True ENERGY_LEVELS [1, 2 :: nat] (initialShellPositions ENERGY_LEVELS)
       = Inr ((initialShellPositions ENERGY_LEVELS)
           [0 := [\<lparr>particle = Some 1, xPosition = 0\<rparr>, \<lparr>particle = Some 2, xPosition = 1\<rparr>]])
   \<and> (\<exists>shells2. updateNucleonPositions True ENERGY_LEVELS [2, 1 :: nat] (initialShellPositions ENERGY_LEVELS)
          = Inr shells2
        \<and> mset (filledPositions shells2) = mset (filledPositions ((initialShellPositions ENERGY_LEVELS)
           [0 := [\<lparr>particle = Some (1::nat), xPosition = 0\<rparr>, \<lparr>particle = Some 2, xPosition = 1\<rparr>]]))
        \<and> (\<exists>k<length (slotOccupants ((initialShellPositions ENERGY_LEVELS)
           [0 := [\<lparr>particle = Some (1::nat), xPosition = 0\<rparr>, \<lparr>particle = Some 2, xPosition = 1\<rparr>]])).
             slotOccupants shells2 ! k \<noteq> slotOccupants ((initialShellPositions ENERGY_LEVELS)
           [0 := [\<lparr>particle = Some (1::nat), xPosition = 0\<rparr>, \<lparr>particle = Some 2, xPosition = 1\<rparr>]]) ! k))"
proof -
  have wf: "wellFormed ENERGY_LEVELS (initialShellPositions ENERGY_LEVELS :: nat shells)"
    by code_simp
  have perm: "mset [2, 1 :: nat] = mset [1, 2]" by simp
  have ne: "[2, 1 :: nat] \<noteq> [1, 2]" by simp
  have ret: "updateNucleonPositions True ENERGY_LEVELS [1, 2 :: nat] (initialShellPositions ENERGY_LEVELS)
       = Inr ((initialShellPositions ENERGY_LEVELS)
           [0 := [\<lparr>particle = Some 1, xPosition = 0\<rparr>, \<lparr>particle = Some 2, xPosition = 1\<rparr>]])"
    by code_simp
  from updateNucleonPositions_permutation [OF wf perm ret] ne wf perm ret
  show ?thesis by blast
qed

end
